theory Spec2Isabelle
  imports Main "HOL-Library.AList"
begin


section \<open>Values, property slots, listeners\<close>

text \<open>
  The dispatcher of \<^verbatim>\<open>src/lib/Emitter.ts\<close> keeps a \<^verbatim>\<open>Map\<close> from event names to
  \<^verbatim>\<open>Set\<close>s of listener functions and writes metadata onto the function objects
  themselves. A listener is caller code: it may call the dispatcher while the dispatcher
  is calling it. Function objects, \<^verbatim>\<open>Set\<close> objects and promises are therefore kept in
  an explicit store and referred to by their index (reference identity).
\<close>

type_synonym name = string
type_synonym fref = nat
type_synonym pref = nat
type_synonym sref = nat

text \<open>
  What the \<^verbatim>\<open>then\<close> method of a promise-like object of the caller does with the
  continuation it is given: it runs it before it returns, keeps it for later, or throws.
\<close>

datatype then_kind = ThenNow | ThenLater | ThenRaises

text \<open>JavaScript values a listener can receive or return. Numbers are integer valued.\<close>

datatype val =
    VUndefined
  | VNull
  | VBool bool
  | VNum int
  | VStr string
  | VObj nat
  | VPromise pref
  | VThenable then_kind nat

text \<open>
  Every exception the modelled code can raise. The first three are \<^verbatim>\<open>TypeError\<close>s of
  the runtime; \<open>Raised v\<close> is a value thrown by caller code.
\<close>

datatype error =
    CannotRedefineProperty
  | ReadOfUndefined
  | DefineOnNonObject
  | Raised val

text \<open>
  How a call ends. Listeners can make \<^verbatim>\<open>emit\<close> run forever, so the functions that
  call listeners take a bound on the steps they may take; \<open>Unfinished\<close> is a call that
  needs more steps than it was given.
\<close>

datatype 'a result = Returned 'a | Threw error | Unfinished

fun truthy :: "val \<Rightarrow> bool" where
  "truthy VUndefined = False"
| "truthy VNull = False"
| "truthy (VBool b) = b"
| "truthy (VNum n) = (n \<noteq> 0)"
| "truthy (VStr s) = (s \<noteq> [])"
| "truthy (VObj _) = True"
| "truthy (VPromise _) = True"
| "truthy (VThenable _ _) = True"

fun instanceof_Promise :: "val \<Rightarrow> bool" where
  "instanceof_Promise (VPromise _) = True"
| "instanceof_Promise _ = False"

fun then_is_function :: "val \<Rightarrow> bool" where
  "then_is_function (VPromise _) = True"
| "then_is_function (VThenable _ _) = True"
| "then_is_function _ = False"

text \<open>
  \<^verbatim>\<open>isPromiseLike(data)\<close>:
  \<^verbatim>\<open>(data && (data instanceof Promise || (data.then !== undefined && typeof data.then === "function"))) ? true : false\<close>
\<close>

definition isPromiseLike :: "val \<Rightarrow> bool" where
  "isPromiseLike data = (truthy data \<and> (instanceof_Promise data \<or> then_is_function data))"

text \<open>
  A property slot of the metadata object. \<open>Fixed v\<close> is a property created by
  \<^verbatim>\<open>Object.defineProperty(o, p, { value: v })\<close> on an object that did not have it:
  not writable and not configurable. \<open>Plain v\<close> is an ordinary property that the
  caller put on the object (writable and configurable).
\<close>

datatype 'a slot = Absent | Plain 'a | Fixed 'a

fun slot_truthy :: "bool slot \<Rightarrow> bool" where
  "slot_truthy Absent = False"
| "slot_truthy (Plain b) = b"
| "slot_truthy (Fixed b) = b"

text \<open>
  \<^verbatim>\<open>Object.defineProperty(o, p, { value: v })\<close> on the slot: a missing property is
  created fixed, a configurable one takes the value, a fixed one accepts only its own
  value and raises a \<^verbatim>\<open>TypeError\<close> otherwise.
\<close>

fun defineProperty :: "bool slot \<Rightarrow> bool \<Rightarrow> error + bool slot" where
  "defineProperty Absent v = Inr (Fixed v)"
| "defineProperty (Plain b) v = Inr (Plain v)"
| "defineProperty (Fixed b) v = (if b = v then Inr (Fixed b) else Inl CannotRedefineProperty)"

text \<open>\<^verbatim>\<open>ListenerData\<close>; \<^verbatim>\<open>listenedTimes\<close> is declared but never read or written.\<close>

record ldata =
  suspended :: bool
  once_field :: "bool slot"
  listened :: "bool slot"

text \<open>The calls on the dispatcher, as data: what a caller, or a listener, can ask for.\<close>

datatype op =
    On name fref
  | Once name fref
  | OnceAsync name
  | Off name "fref option"
  | Emit name "val list"
  | HasListener name "fref option"
  | IsListened name
  | ListenerCount "name option"
  | RunContinuation nat

datatype outcome = Return val | Raise val

text \<open>
  What a listener does when called. \<open>Code g\<close> is a caller's function: called with
  \<open>args\<close> it makes the dispatcher calls \<open>fst (g args)\<close>, in order, and then returns
  or throws as \<open>snd (g args)\<close> says; an exception of one of its calls leaves it at
  once. The calls and the outcome depend on the arguments only. \<open>Resolver p\<close> is the
  closure that \<^verbatim>\<open>onceAsync\<close> registers:
  \<^verbatim>\<open>(...parameters) => { try { resolve(parameters) } catch (e) { reject(e) } }\<close>.
\<close>

datatype body = Code "val list \<Rightarrow> op list \<times> outcome" | Resolver pref

record listener =
  source_text :: string
  body :: body
  listenerData :: "ldata option"

datatype promise = Pending | Fulfilled "val list" | Rejected error

section \<open>The dispatcher state\<close>

text \<open>
  The four instance fields of \<^verbatim>\<open>Emitter\<close>, then the store they refer to and the
  observable effects: the warnings handed to \<^verbatim>\<open>process.emitWarning\<close> (limit and
  event name), the log of listener invocations, and the continuations attached with
  \<^verbatim>\<open>callbackRes.then(...)\<close> that have not run yet. The limits object maps a name
  to its limit (an integer) or to nothing; \<open>None\<close> is a dispatcher constructed
  without limits. The \<^verbatim>\<open>Map\<close> holds references to \<^verbatim>\<open>Set\<close> objects.
\<close>

record world =
  limits :: "(name \<rightharpoonup> int) option"
  limitWarn :: bool
  listeners :: "(name \<times> sref) list"
  warned :: bool
  sets :: "fref option list list"
  funs :: "listener list"
  promises :: "promise list"
  warnings :: "(int \<times> name) list"
  calls :: "(fref \<times> val list) list"
  continuations :: "(name \<times> fref \<times> val) list"

text \<open>
  \<^verbatim>\<open>Map\<close> as an association list in insertion order: \<^verbatim>\<open>set\<close> keeps the place of
  an existing key and appends a new one, \<^verbatim>\<open>delete\<close> drops the key.
\<close>

definition map_has :: "name \<Rightarrow> (name \<times> sref) list \<Rightarrow> bool" where
  "map_has k m = (map_of m k \<noteq> None)"

definition map_set :: "name \<Rightarrow> sref \<Rightarrow> (name \<times> sref) list \<Rightarrow> (name \<times> sref) list" where
  "map_set k v m = AList.update k v m"

definition map_delete :: "name \<Rightarrow> (name \<times> sref) list \<Rightarrow> (name \<times> sref) list" where
  "map_delete k m = AList.delete k m"

text \<open>
  A \<^verbatim>\<open>Set\<close> of listeners is the list of its entries in insertion order.
  \<^verbatim>\<open>delete\<close> empties the entry and leaves its place (\<open>None\<close>), \<^verbatim>\<open>add\<close> appends
  a value that is not a member, and a \<^verbatim>\<open>for ... of\<close> walks the places by index, so
  that it passes over emptied entries and reaches entries added while it runs.
\<close>

definition add_entry :: "fref \<Rightarrow> fref option list \<Rightarrow> fref option list" where
  "add_entry x es = (if Some x \<in> set es then es else es @ [Some x])"

text \<open>\<^verbatim>\<open>listeners.delete(listener)\<close>; \<^verbatim>\<open>undefined\<close> is never a member.\<close>

fun delete_entry :: "fref option \<Rightarrow> fref option list \<Rightarrow> fref option list" where
  "delete_entry None es = es"
| "delete_entry (Some f) es = map (\<lambda>en. if en = Some f then None else en) es"

definition members :: "fref option list \<Rightarrow> fref list" where
  "members es = List.map_filter (\<lambda>en. en) es"

definition size_entries :: "fref option list \<Rightarrow> nat" where
  "size_entries es = length (members es)"

text \<open>The result set of \<^verbatim>\<open>emit\<close>: values are only added to it.\<close>

definition set_add :: "'a \<Rightarrow> 'a list \<Rightarrow> 'a list" where
  "set_add x xs = (if x \<in> set xs then xs else xs @ [x])"

text \<open>
  Reading through a reference. A function reference outside the store stands for
  \<^verbatim>\<open>undefined\<close>; \<open>data_of\<close> is \<^verbatim>\<open>callback.listenerData\<close>.
\<close>

definition set_at :: "world \<Rightarrow> sref \<Rightarrow> fref option list" where
  "set_at st sid = (if sid < length (sets st) then sets st ! sid else [])"

definition fun_at :: "world \<Rightarrow> fref \<Rightarrow> listener option" where
  "fun_at st f = (if f < length (funs st) then Some (funs st ! f) else None)"

definition data_of :: "world \<Rightarrow> fref \<Rightarrow> ldata option" where
  "data_of st f = (case fun_at st f of None \<Rightarrow> None | Some l \<Rightarrow> listenerData l)"

text \<open>The listeners registered under a name, in insertion order; none without a collection.\<close>

definition entries_of :: "world \<Rightarrow> name \<Rightarrow> fref option list" where
  "entries_of st e = (case map_of (listeners st) e of None \<Rightarrow> [] | Some sid \<Rightarrow> set_at st sid)"

definition collection :: "world \<Rightarrow> name \<Rightarrow> fref list" where
  "collection st e = members (entries_of st e)"

text \<open>
  Modelled from the spec: \<^verbatim>\<open>DefaultEmitterOptions\<close> lives in
  \<^verbatim>\<open>./util/DefaultOptions\<close>, which is not among the sources; the spec gives
  \<^verbatim>\<open>limitWarn: boolean (default true)\<close>.
\<close>

definition DefaultEmitterOptions :: "bool option" where
  "DefaultEmitterOptions = Some True"

text \<open>
  \<^verbatim>\<open>handleEmitterOptions\<close>: an options object is \<open>Some lw\<close> with \<open>lw\<close> its
  \<^verbatim>\<open>limitWarn\<close> field (\<open>None\<close> for \<^verbatim>\<open>undefined\<close>).
\<close>

definition handleEmitterOptions :: "bool option option \<Rightarrow> bool" where
  "handleEmitterOptions emitterOptions =
     (let options = (case emitterOptions of None \<Rightarrow> DefaultEmitterOptions | Some o' \<Rightarrow> o')
      in case options of None \<Rightarrow> True | Some b \<Rightarrow> b)"

text \<open>The constructor; the store starts empty.\<close>

definition construct :: "bool option option \<Rightarrow> (name \<rightharpoonup> int) option \<Rightarrow> world" where
  "construct emitterOptions lims =
     \<lparr> limits = lims, limitWarn = handleEmitterOptions emitterOptions, listeners = [],
       warned = False, sets = [], funs = [], promises = [], warnings = [], calls = [],
       continuations = [] \<rparr>"

text \<open>A caller creating a function object with the given source text and behaviour.\<close>

definition new_function :: "string \<Rightarrow> (val list \<Rightarrow> op list \<times> outcome) \<Rightarrow> world \<Rightarrow> world" where
  "new_function txt g st =
     st\<lparr>funs := funs st @ [\<lparr>source_text = txt, body = Code g, listenerData = None\<rparr>]\<rparr>"

section \<open>Registration: \<^verbatim>\<open>on\<close>, \<^verbatim>\<open>once\<close>, \<^verbatim>\<open>onceAsync\<close>\<close>

text \<open>
  \<^verbatim>\<open>if (!listener.listenerData) listener.listenerData = {};\<close>
  \<^verbatim>\<open>Object.defineProperty(listener.listenerData, 'once', { value: v });\<close>
  Reading \<^verbatim>\<open>listenerData\<close> of \<^verbatim>\<open>undefined\<close> raises.
\<close>

definition empty_data :: ldata where
  "empty_data = \<lparr>suspended = False, once_field = Absent, listened = Absent\<rparr>"

definition define_once :: "bool \<Rightarrow> fref \<Rightarrow> world \<Rightarrow> error + world" where
  "define_once v f st =
     (case fun_at st f of
        None \<Rightarrow> Inl ReadOfUndefined
      | Some l \<Rightarrow>
          (let d = (case listenerData l of None \<Rightarrow> empty_data | Some d' \<Rightarrow> d')
           in case defineProperty (once_field d) v of
                Inl err \<Rightarrow> Inl err
              | Inr p \<Rightarrow>
                  Inr (st\<lparr>funs := (funs st)[f := l\<lparr>listenerData := Some (d\<lparr>once_field := p\<rparr>)\<rparr>]\<rparr>)))"

text \<open>
  \<^verbatim>\<open>this.limits !== 'undefined'\<close>: the limits are an object or \<^verbatim>\<open>undefined\<close>, never
  the string, so the strict inequality holds in both cases.
\<close>

definition differs_from_string_undefined :: "(name \<rightharpoonup> int) option \<Rightarrow> bool" where
  "differs_from_string_undefined lims = True"

text \<open>\<^verbatim>\<open>a > b\<close> on numbers that may be \<^verbatim>\<open>undefined\<close>: false unless both are numbers.\<close>

fun js_gt :: "int option \<Rightarrow> int option \<Rightarrow> bool" where
  "js_gt (Some a) (Some b) = (a > b)"
| "js_gt _ _ = False"

text \<open>\<^verbatim>\<open>this.listeners.get(eventName)?.size\<close>\<close>

definition size_of :: "world \<Rightarrow> name \<Rightarrow> int option" where
  "size_of st e =
     map_option (\<lambda>sid. int (size_entries (set_at st sid))) (map_of (listeners st) e)"

text \<open>
  The limit test that ends \<^verbatim>\<open>on\<close> and \<^verbatim>\<open>once\<close> (lines 59-75 and 96-112). The
  conjunction is evaluated left to right: indexing \<^verbatim>\<open>this.limits\<close> comes second and
  raises when the limits are \<^verbatim>\<open>undefined\<close>.
\<close>

definition limit_check :: "name \<Rightarrow> world \<Rightarrow> unit result \<times> world" where
  "limit_check eventName st =
     (if differs_from_string_undefined (limits st) then
        (case limits st of
           None \<Rightarrow> (Threw ReadOfUndefined, st)
         | Some lim \<Rightarrow>
             if js_gt (lim eventName) (size_of st eventName) \<and> \<not> warned st \<and> limitWarn st
             then (Returned (), st\<lparr>warnings := warnings st @ [(the (lim eventName), eventName)],
                                   warned := True\<rparr>)
             else (Returned (), st))
      else (Returned (), st))"

text \<open>
  The common body of \<^verbatim>\<open>on\<close> and \<^verbatim>\<open>once\<close>, which differ only in the value given
  to the \<^verbatim>\<open>once\<close> field. The first branch creates a \<^verbatim>\<open>Set\<close> object, the second
  adds to the one the \<^verbatim>\<open>Map\<close> holds. The returned \<^verbatim>\<open>this\<close> is the dispatcher
  in its new state.
\<close>

definition register_listener :: "bool \<Rightarrow> name \<Rightarrow> fref \<Rightarrow> world \<Rightarrow> unit result \<times> world" where
  "register_listener v eventName listener st =
     (if \<not> map_has eventName (listeners st) then
        (case define_once v listener st of
           Inl err \<Rightarrow> (Threw err, st)
         | Inr st1 \<Rightarrow>
             limit_check eventName
               (st1\<lparr>sets := sets st1 @ [[Some listener]],
                    listeners := map_set eventName (length (sets st1)) (listeners st1)\<rparr>))
      else
        (let sid = the (map_of (listeners st) eventName)
         in case define_once v listener st of
              Inl err \<Rightarrow> (Threw err, st)
            | Inr st1 \<Rightarrow>
                limit_check eventName
                  (st1\<lparr>sets := (sets st1)[sid := add_entry listener (set_at st1 sid)],
                       listeners := map_set eventName sid (listeners st1)\<rparr>)))"

definition on :: "name \<Rightarrow> fref \<Rightarrow> world \<Rightarrow> unit result \<times> world" where
  "on eventName listener st = register_listener False eventName listener st"

definition once :: "name \<Rightarrow> fref \<Rightarrow> world \<Rightarrow> unit result \<times> world" where
  "once eventName listener st = register_listener True eventName listener st"

text \<open>The source text of the closure that \<^verbatim>\<open>onceAsync\<close> registers.\<close>

definition resolver_text :: string where
  "resolver_text = ''(...parameters) => { try { resolve(parameters); } catch (e) { reject(e); } }''"

text \<open>
  \<^verbatim>\<open>onceAsync\<close>: the executor of the new promise runs at once, creates the closure
  and calls \<^verbatim>\<open>this.once\<close>; an exception leaving the executor rejects the promise.
\<close>

definition onceAsync :: "name \<Rightarrow> world \<Rightarrow> pref \<times> world" where
  "onceAsync eventName st =
     (let p = length (promises st);
          f = length (funs st);
          st1 = st\<lparr>promises := promises st @ [Pending],
                   funs := funs st @ [\<lparr>source_text = resolver_text, body = Resolver p,
                                       listenerData = None\<rparr>]\<rparr>
      in case once eventName f st1 of
           (Threw err, st2) \<Rightarrow> (p, st2\<lparr>promises := (promises st2)[p := Rejected err]\<rparr>)
         | (_, st2) \<Rightarrow> (p, st2))"

section \<open>Removal: \<^verbatim>\<open>off\<close>\<close>

text \<open>\<^verbatim>\<open>String(x)\<close> for a listener argument that may be omitted.\<close>

definition String_of :: "world \<Rightarrow> fref option \<Rightarrow> string" where
  "String_of st x =
     (case x of
        None \<Rightarrow> ''undefined''
      | Some f \<Rightarrow> (case fun_at st f of None \<Rightarrow> ''undefined'' | Some l \<Rightarrow> source_text l))"

text \<open>
  One turn of the loop of \<^verbatim>\<open>off\<close> (lines 144-147), the iterator at place
  \<open>i\<close> of the set: an emptied entry is passed over. The member deleted is
  \<^verbatim>\<open>listener\<close>, the argument, not \<^verbatim>\<open>callback\<close>.
\<close>

definition off_turn :: "world \<Rightarrow> fref option \<Rightarrow> nat \<Rightarrow> fref option list \<Rightarrow> fref option list" where
  "off_turn st listener i es =
     (case es ! i of
        None \<Rightarrow> es
      | Some callback \<Rightarrow>
          if String_of st listener = String_of st (Some callback)
          then delete_entry listener es
          else es)"

text \<open>
  The loop walks the set it deletes from. Nothing is added meanwhile and a deletion
  leaves the places as they are, so the iterator takes each place of the set once.
\<close>

definition off_loop :: "world \<Rightarrow> fref option \<Rightarrow> fref option list \<Rightarrow> fref option list" where
  "off_loop st listener es = fold (off_turn st listener) [0..<length es] es"

definition off :: "name \<Rightarrow> fref option \<Rightarrow> world \<Rightarrow> world" where
  "off eventName listener st =
     (case map_of (listeners st) eventName of
        None \<Rightarrow> st
      | Some sid \<Rightarrow>
          (let es = off_loop st listener (set_at st sid);
               st1 = st\<lparr>sets := (sets st)[sid := es]\<rparr>
           in if size_entries es > 0
              then st1\<lparr>listeners := map_set eventName sid (listeners st1)\<rparr>
              else st1\<lparr>listeners := map_delete eventName (listeners st1)\<rparr>))"

section \<open>Dispatch: \<^verbatim>\<open>emit\<close>\<close>

text \<open>\<^verbatim>\<open>resolve(parameters)\<close> settles a pending promise and is ignored by a settled one.\<close>

definition resolve :: "pref \<Rightarrow> val list \<Rightarrow> promise list \<Rightarrow> promise list" where
  "resolve p args ps = (if p < length ps \<and> ps ! p = Pending then ps[p := Fulfilled args] else ps)"

text \<open>
  The dispatcher calls that a listener makes while it runs. \<open>X\<close> executes one call of
  the dispatcher; the first call that does not return ends the listener.
\<close>

fun run_script :: "(op \<Rightarrow> world \<Rightarrow> unit result \<times> world) \<Rightarrow> op list \<Rightarrow> world \<Rightarrow> unit result \<times> world" where
  "run_script X [] st = (Returned (), st)"
| "run_script X (c # cs) st =
     (case X c st of
        (Returned u, st1) \<Rightarrow> run_script X cs st1
      | (Threw err, st1) \<Rightarrow> (Threw err, st1)
      | (Unfinished, st1) \<Rightarrow> (Unfinished, st1))"

text \<open>
  \<^verbatim>\<open>callback(...args)\<close> for the function object \<open>l\<close> at \<open>c\<close>, recorded in the
  invocation log: the listener runs, with its calls of the dispatcher, before
  \<^verbatim>\<open>emit\<close> goes on.
\<close>

definition invoke :: "(op \<Rightarrow> world \<Rightarrow> unit result \<times> world) \<Rightarrow> listener \<Rightarrow> fref \<Rightarrow> val list \<Rightarrow> world \<Rightarrow> val result \<times> world" where
  "invoke X l c args st =
     (let st1 = st\<lparr>calls := calls st @ [(c, args)]\<rparr>
      in case body l of
           Code g \<Rightarrow>
             (case run_script X (fst (g args)) st1 of
                (Returned u, st2) \<Rightarrow>
                  (case snd (g args) of
                     Return r \<Rightarrow> (Returned r, st2)
                   | Raise x \<Rightarrow> (Threw (Raised x), st2))
              | (Threw err, st2) \<Rightarrow> (Threw err, st2)
              | (Unfinished, st2) \<Rightarrow> (Unfinished, st2))
         | Resolver p \<Rightarrow> (Returned VUndefined, st1\<lparr>promises := resolve p args (promises st1)\<rparr>))"

text \<open>\<^verbatim>\<open>Object.defineProperty(callback.listenerData, 'listened', { value: true })\<close>\<close>

definition mark_listened :: "fref \<Rightarrow> world \<Rightarrow> error + world" where
  "mark_listened c st =
     (case data_of st c of
        None \<Rightarrow> Inl DefineOnNonObject
      | Some d \<Rightarrow>
          (case defineProperty (listened d) True of
             Inl err \<Rightarrow> Inl err
           | Inr p \<Rightarrow>
               Inr (st\<lparr>funs := (funs st)[c := (funs st ! c)\<lparr>listenerData := Some (d\<lparr>listened := p\<rparr>)\<rparr>]\<rparr>)))"

text \<open>\<^verbatim>\<open>callback.listenerData?.suspended\<close> and \<^verbatim>\<open>callback.listenerData?.once\<close>\<close>

definition is_suspended :: "world \<Rightarrow> fref \<Rightarrow> bool" where
  "is_suspended st c = (case data_of st c of None \<Rightarrow> False | Some d \<Rightarrow> suspended d)"

definition is_once :: "world \<Rightarrow> fref \<Rightarrow> bool" where
  "is_once st c = (case data_of st c of None \<Rightarrow> False | Some d \<Rightarrow> slot_truthy (once_field d))"

text \<open>
  The first two of the three actions that follow an invocation (lines 183-186, and
  176-179 inside the continuation): mark, remove a once-listener through
  \<^verbatim>\<open>this.off\<close>.
\<close>

definition after_call :: "name \<Rightarrow> fref \<Rightarrow> world \<Rightarrow> error + world" where
  "after_call eventName c st =
     (case mark_listened c st of
        Inl err \<Rightarrow> Inl err
      | Inr st1 \<Rightarrow> Inr (if is_once st1 c then off eventName (Some c) st1 else st1))"

text \<open>The three actions, the last being \<^verbatim>\<open>returnVal.add(callbackRes)\<close>.\<close>

definition settle :: "name \<Rightarrow> fref \<Rightarrow> val \<Rightarrow> val list \<Rightarrow> world \<Rightarrow> val list result \<times> world" where
  "settle eventName callback callbackRes returnVal st =
     (case after_call eventName callback st of
        Inl err \<Rightarrow> (Threw err, st)
      | Inr st1 \<Rightarrow> (Returned (set_add callbackRes returnVal), st1))"

text \<open>
  \<^verbatim>\<open>callbackRes.then(() => { ... })\<close> (lines 174-181). A promise of the host keeps
  the continuation for a later turn of the event loop. The \<^verbatim>\<open>then\<close> of another
  promise-like object is code of the caller: it may run the continuation before it
  returns, so that the three actions happen inside \<^verbatim>\<open>emit\<close>, keep it, or throw.
\<close>

definition call_then :: "name \<Rightarrow> fref \<Rightarrow> val \<Rightarrow> val list \<Rightarrow> world \<Rightarrow> val list result \<times> world" where
  "call_then eventName callback callbackRes returnVal st =
     (case callbackRes of
        VThenable ThenNow x \<Rightarrow> settle eventName callback callbackRes returnVal st
      | VThenable ThenRaises x \<Rightarrow> (Threw (Raised callbackRes), st)
      | _ \<Rightarrow> (Returned returnVal,
               st\<lparr>continuations := continuations st @ [(eventName, callback, callbackRes)]\<rparr>))"

text \<open>
  One turn of the loop of \<^verbatim>\<open>emit\<close> (lines 170-188) for \<^verbatim>\<open>callback\<close>, with the
  result set \<^verbatim>\<open>returnVal\<close> so far.
\<close>

definition emit_body :: "(op \<Rightarrow> world \<Rightarrow> unit result \<times> world) \<Rightarrow> name \<Rightarrow> val list \<Rightarrow> fref \<Rightarrow> val list \<Rightarrow> world \<Rightarrow> val list result \<times> world" where
  "emit_body X eventName args callback returnVal st =
     (case fun_at st callback of
        None \<Rightarrow> (Threw ReadOfUndefined, st)
      | Some l \<Rightarrow>
          if is_suspended st callback then (Returned returnVal, st)
          else
            (case invoke X l callback args st of
               (Returned callbackRes, st1) \<Rightarrow>
                 if isPromiseLike callbackRes
                 then call_then eventName callback callbackRes returnVal st1
                 else settle eventName callback callbackRes returnVal st1
             | (Threw err, st1) \<Rightarrow> (Threw err, st1)
             | (Unfinished, st1) \<Rightarrow> (Unfinished, st1)))"

text \<open>
  The \<^verbatim>\<open>for ... of\<close> over the \<^verbatim>\<open>Set\<close> object \<open>sid\<close> that was registered under
  the name when the loop began. The set can change while the loop runs, through
  \<^verbatim>\<open>this.off\<close> and through the listeners, and the loop reads it anew at every
  turn: \<open>i\<close> is the place of the iterator. A listener that removes and registers itself
  again is visited again, so the loop need not end: \<open>k\<close> bounds its turns.
\<close>

fun emit_loop :: "(op \<Rightarrow> world \<Rightarrow> unit result \<times> world) \<Rightarrow> nat \<Rightarrow> name \<Rightarrow> val list \<Rightarrow> sref \<Rightarrow> nat \<Rightarrow> val list \<Rightarrow> world \<Rightarrow> val list result \<times> world" where
  "emit_loop X 0 eventName args sid i returnVal st = (Unfinished, st)"
| "emit_loop X (Suc k) eventName args sid i returnVal st =
     (if i < length (set_at st sid) then
        (case set_at st sid ! i of
           None \<Rightarrow> emit_loop X k eventName args sid (Suc i) returnVal st
         | Some callback \<Rightarrow>
             (case emit_body X eventName args callback returnVal st of
                (Returned rv, st1) \<Rightarrow> emit_loop X k eventName args sid (Suc i) rv st1
              | (Threw err, st1) \<Rightarrow> (Threw err, st1)
              | (Unfinished, st1) \<Rightarrow> (Unfinished, st1)))
      else (Returned returnVal, st))"

definition emit_with :: "(op \<Rightarrow> world \<Rightarrow> unit result \<times> world) \<Rightarrow> nat \<Rightarrow> name \<Rightarrow> val list \<Rightarrow> world \<Rightarrow> val list result \<times> world" where
  "emit_with X k eventName args st =
     (case map_of (listeners st) eventName of
        None \<Rightarrow> (Returned [], st)
      | Some sid \<Rightarrow> emit_loop X k eventName args sid 0 [] st)"

text \<open>
  The continuation kept by a promise-like result, when the host runs it: entry \<open>j\<close> of
  the pending ones is taken out and its body executed. Its third action adds to a
  result set that \<^verbatim>\<open>emit\<close> has returned already, which is not part of the state.
\<close>

definition run_continuation :: "nat \<Rightarrow> world \<Rightarrow> unit result \<times> world" where
  "run_continuation j st =
     (if j < length (continuations st) then
        (case continuations st ! j of
           (eventName, callback, callbackRes) \<Rightarrow>
             (let st1 = st\<lparr>continuations := take j (continuations st) @ drop (Suc j) (continuations st)\<rparr>
              in case after_call eventName callback st1 of
                   Inl err \<Rightarrow> (Threw err, st1)
                 | Inr st2 \<Rightarrow> (Returned (), st2)))
      else (Returned (), st))"

section \<open>Introspection\<close>

text \<open>\<^verbatim>\<open>!callback\<close> holds for \<^verbatim>\<open>undefined\<close> only; a function object is truthy.\<close>

definition is_given :: "world \<Rightarrow> fref option \<Rightarrow> bool" where
  "is_given st x = (case x of None \<Rightarrow> False | Some f \<Rightarrow> fun_at st f \<noteq> None)"

definition hasListener :: "name \<Rightarrow> fref option \<Rightarrow> world \<Rightarrow> bool" where
  "hasListener eventName callback st =
     (if \<not> is_given st callback then map_has eventName (listeners st)
      else if map_has eventName (listeners st)
           then list_ex (\<lambda>l. String_of st (Some l) = String_of st callback)
                  (members (entries_of st eventName))
           else False)"

definition is_listened :: "world \<Rightarrow> fref \<Rightarrow> bool" where
  "is_listened st c = (case data_of st c of None \<Rightarrow> False | Some d \<Rightarrow> slot_truthy (listened d))"

definition isListened :: "name \<Rightarrow> world \<Rightarrow> bool" where
  "isListened eventName st =
     (if map_has eventName (listeners st)
      then list_ex (is_listened st) (members (entries_of st eventName))
      else False)"

text \<open>\<^verbatim>\<open>if (eventName)\<close>: an omitted name and the empty string are both falsy.\<close>

fun name_truthy :: "name option \<Rightarrow> bool" where
  "name_truthy None = False"
| "name_truthy (Some s) = (s \<noteq> [])"

definition listenerCount :: "name option \<Rightarrow> world \<Rightarrow> nat" where
  "listenerCount eventName st =
     (if name_truthy eventName then
        (if map_has (the eventName) (listeners st)
         then size_entries (entries_of st (the eventName))
         else 0)
      else fold (\<lambda>entry listenerCount. listenerCount + size_entries (set_at st (snd entry)))
             (listeners st) 0)"

section \<open>Calls of the dispatcher, nested in listeners\<close>

text \<open>
  One call of the dispatcher, with how it ends and the state it leaves. \<open>X\<close> executes
  the calls made by the listeners that the call invokes.
\<close>

fun exec_with :: "(op \<Rightarrow> world \<Rightarrow> unit result \<times> world) \<Rightarrow> nat \<Rightarrow> op \<Rightarrow> world \<Rightarrow> unit result \<times> world" where
  "exec_with X k (On e f) st = on e f st"
| "exec_with X k (Once e f) st = once e f st"
| "exec_with X k (OnceAsync e) st = (Returned (), snd (onceAsync e st))"
| "exec_with X k (Off e l) st = (Returned (), off e l st)"
| "exec_with X k (Emit e args) st =
     (case emit_with X k e args st of
        (Returned rv, st1) \<Rightarrow> (Returned (), st1)
      | (Threw err, st1) \<Rightarrow> (Threw err, st1)
      | (Unfinished, st1) \<Rightarrow> (Unfinished, st1))"
| "exec_with X k (HasListener e l) st = (Returned (), st)"
| "exec_with X k (IsListened e) st = (Returned (), st)"
| "exec_with X k (ListenerCount e) st = (Returned (), st)"
| "exec_with X k (RunContinuation j) st = run_continuation j st"

text \<open>
  Calls nested at most \<open>n\<close> deep, each loop of at most \<open>n\<close> turns; deeper or longer
  ones do not finish.
\<close>

primrec nested :: "nat \<Rightarrow> op \<Rightarrow> world \<Rightarrow> unit result \<times> world" where
  "nested 0 = (\<lambda>c st. (Unfinished, st))"
| "nested (Suc n) = exec_with (nested n) n"

text \<open>
  \<^verbatim>\<open>emit\<close> and any call of the dispatcher, given \<open>n\<close> turns and levels: a call that
  finishes within them returns or throws, and it is \<open>Unfinished\<close> otherwise, with the
  state in which it was cut off.
\<close>

definition emit :: "nat \<Rightarrow> name \<Rightarrow> val list \<Rightarrow> world \<Rightarrow> val list result \<times> world" where
  "emit n eventName args st = emit_with (nested n) n eventName args st"

definition exec :: "nat \<Rightarrow> op \<Rightarrow> world \<Rightarrow> unit result \<times> world" where
  "exec n c st = exec_with (nested n) n c st"

text \<open>A sequence of calls by the caller, each of them returning, throwing or cut off.\<close>

definition execs :: "nat \<Rightarrow> op list \<Rightarrow> world \<Rightarrow> world" where
  "execs n cs st = fold (\<lambda>c s. snd (exec n c s)) cs st"

text \<open>A sequence of \<^verbatim>\<open>emit\<close> calls for one event.\<close>

definition emits :: "nat \<Rightarrow> name \<Rightarrow> val list list \<Rightarrow> world \<Rightarrow> world" where
  "emits n e argss st = fold (\<lambda>args s. snd (emit n e args s)) argss st"

section \<open>Observations used in the statements\<close>

text \<open>
  What the function at \<open>f\<close> does when called with \<open>args\<close>: the dispatcher calls it
  makes and how it ends. No operation changes the body of a function. Calling what is
  not a function raises.
\<close>

definition script_of :: "body \<Rightarrow> val list \<Rightarrow> op list" where
  "script_of b args = (case b of Code g \<Rightarrow> fst (g args) | Resolver p \<Rightarrow> [])"

definition run_body :: "body \<Rightarrow> val list \<Rightarrow> outcome" where
  "run_body b args = (case b of Code g \<Rightarrow> snd (g args) | Resolver p \<Rightarrow> Return VUndefined)"

definition script :: "world \<Rightarrow> fref \<Rightarrow> val list \<Rightarrow> op list" where
  "script st f args = (case fun_at st f of None \<Rightarrow> [] | Some l \<Rightarrow> script_of (body l) args)"

definition answer :: "world \<Rightarrow> fref \<Rightarrow> val list \<Rightarrow> outcome" where
  "answer st f args = (case fun_at st f of None \<Rightarrow> Raise VUndefined | Some l \<Rightarrow> run_body (body l) args)"

text \<open>
  Whether the three actions for a returned value happen inside \<^verbatim>\<open>emit\<close>: they do
  for an immediate value and for a promise-like one whose \<^verbatim>\<open>then\<close> runs the
  continuation at once.
\<close>

fun settles_inside :: "val \<Rightarrow> bool" where
  "settles_inside (VThenable ThenNow x) = True"
| "settles_inside r = (\<not> isPromiseLike r)"

text \<open>The value a listener contributes to the result set before \<^verbatim>\<open>emit\<close> returns, if any.\<close>

definition contribution :: "world \<Rightarrow> val list \<Rightarrow> fref \<Rightarrow> val option" where
  "contribution st args f =
     (case answer st f args of
        Return r \<Rightarrow> if settles_inside r then Some r else None
      | Raise x \<Rightarrow> None)"

text \<open>The \<^verbatim>\<open>once\<close> slot of a function's metadata, \<open>Absent\<close> without metadata.\<close>

definition once_slot :: "world \<Rightarrow> fref \<Rightarrow> bool slot" where
  "once_slot st f = (case data_of st f of None \<Rightarrow> Absent | Some d \<Rightarrow> once_field d)"

definition listened_slot :: "world \<Rightarrow> fref \<Rightarrow> bool slot" where
  "listened_slot st f = (case data_of st f of None \<Rightarrow> Absent | Some d \<Rightarrow> listened d)"

text \<open>How often \<open>f\<close> occurs in an invocation log.\<close>

definition invocations :: "fref \<Rightarrow> (fref \<times> val list) list \<Rightarrow> nat" where
  "invocations f log = length (filter (\<lambda>c. fst c = f) log)"

section \<open>Notions used in the statements and the proofs\<close>

text \<open>The registry holds no empty collection.\<close>

definition registry_ok :: "world \<Rightarrow> bool" where
  "registry_ok st = list_all (\<lambda>entry. members (set_at st (snd entry)) \<noteq> []) (listeners st)"

text \<open>
  No two keys of the registry hold the same \<^verbatim>\<open>Set\<close> object: \<^verbatim>\<open>on\<close> and
  \<^verbatim>\<open>once\<close> create a new one for a new key and never store one under another key.
\<close>

definition unshared :: "world \<Rightarrow> bool" where
  "unshared st = distinct (map snd (listeners st))"

text \<open>Every \<^verbatim>\<open>Set\<close> object is a set: no member is repeated.\<close>

definition sets_ok :: "world \<Rightarrow> bool" where
  "sets_ok st = list_all (\<lambda>es. distinct (members es)) (sets st)"

text \<open>
  A registration inserts the listener when the argument is a function whose \<^verbatim>\<open>once\<close>
  property is not already fixed at the other value; otherwise it raises before it
  touches the registry.
\<close>

definition can_register :: "bool \<Rightarrow> world \<Rightarrow> fref \<Rightarrow> bool" where
  "can_register v st f = (fun_at st f \<noteq> None \<and> once_slot st f \<noteq> Fixed (\<not> v))"

text \<open>A promise-like result whose \<^verbatim>\<open>then\<close> throws.\<close>

fun then_raises :: "val \<Rightarrow> bool" where
  "then_raises (VThenable ThenRaises x) = True"
| "then_raises r = False"

text \<open>
  A listener that lets \<^verbatim>\<open>emit\<close> go on and leaves the dispatcher alone: it is a
  function and, unless suspended, on these arguments it makes no call of the dispatcher
  and returns a value whose \<^verbatim>\<open>then\<close>, if it has one, does not throw; and if the
  three actions for the value happen inside \<^verbatim>\<open>emit\<close>, its metadata object is
  there with a \<^verbatim>\<open>listened\<close> property that can be set to true.
\<close>

definition runs_cleanly :: "world \<Rightarrow> val list \<Rightarrow> fref \<Rightarrow> bool" where
  "runs_cleanly st args c =
     (fun_at st c \<noteq> None \<and>
      (is_suspended st c \<or>
       (script st c args = [] \<and>
        (case answer st c args of
           Return r \<Rightarrow>
             \<not> then_raises r \<and>
             (settles_inside r \<longrightarrow>
                data_of st c \<noteq> None \<and> listened_slot st c \<noteq> Fixed False)
         | Raise x \<Rightarrow> False))))"

text \<open>
  The listeners that \<^verbatim>\<open>emit\<close> removes before it returns: the once-listeners it
  invokes whose result is settled inside \<^verbatim>\<open>emit\<close>.
\<close>

definition removed_on_return :: "world \<Rightarrow> val list \<Rightarrow> fref \<Rightarrow> bool" where
  "removed_on_return st args f =
     (\<not> is_suspended st f \<and> is_once st f \<and> contribution st args f \<noteq> None)"

text \<open>
  The \<^verbatim>\<open>Set\<close> object \<open>sid\<close> is the collection of the name, or the name has lost
  its collection and the object is empty.
\<close>

definition own :: "name \<Rightarrow> sref \<Rightarrow> world \<Rightarrow> bool" where
  "own e sid st =
     (map_of (listeners st) e = Some sid \<or>
      (map_of (listeners st) e = None \<and> members (set_at st sid) = []))"

text \<open>
  What a turn of the dispatch loop leaves alone when the listener makes no call of the
  dispatcher: the functions with their bodies, their \<^verbatim>\<open>suspended\<close> and
  \<^verbatim>\<open>once\<close> metadata; metadata objects stay, and a \<^verbatim>\<open>listened\<close> property
  does not become fixed at \<open>False\<close>.
\<close>

definition frame :: "world \<Rightarrow> world \<Rightarrow> bool" where
  "frame st st' =
     (length (funs st') = length (funs st) \<and>
      (\<forall>f. map_option body (fun_at st' f) = map_option body (fun_at st f) \<and>
           is_suspended st' f = is_suspended st f \<and>
           once_slot st' f = once_slot st f \<and>
           (data_of st' f = None) = (data_of st f = None) \<and>
           (listened_slot st' f = Fixed False \<longrightarrow> listened_slot st f = Fixed False)))"

text \<open>
  What every call of the dispatcher respects, whether it returns, raises or is cut
  off: functions, sets and promises are only added, a function keeps its body, its text
  and its \<^verbatim>\<open>suspended\<close> mark, a fixed \<^verbatim>\<open>once\<close> property keeps its value, a
  metadata object stays, a \<^verbatim>\<open>listened\<close> property does not become fixed at
  \<open>False\<close>, a dispatcher that has warned stays so and emits nothing more, the registry
  keeps its invariants, the configuration is constant, and a settled promise stays as
  it is.
\<close>

definition evolves :: "world \<Rightarrow> world \<Rightarrow> bool" where
  "evolves st st' =
     (length (funs st) \<le> length (funs st') \<and>
      (\<forall>f. f < length (funs st) \<longrightarrow>
           body (funs st' ! f) = body (funs st ! f) \<and>
           source_text (funs st' ! f) = source_text (funs st ! f)) \<and>
      (\<forall>f. is_suspended st' f = is_suspended st f) \<and>
      (\<forall>f b. once_slot st f = Fixed b \<longrightarrow> once_slot st' f = Fixed b) \<and>
      (\<forall>f. data_of st f \<noteq> None \<longrightarrow> data_of st' f \<noteq> None) \<and>
      (\<forall>f. listened_slot st' f = Fixed False \<longrightarrow> listened_slot st f = Fixed False) \<and>
      (warned st \<longrightarrow> warned st' \<and> warnings st' = warnings st) \<and>
      (registry_ok st \<and> unshared st \<longrightarrow> registry_ok st' \<and> unshared st') \<and>
      (sets_ok st \<longrightarrow> sets_ok st') \<and>
      limits st' = limits st \<and> limitWarn st' = limitWarn st \<and>
      length (promises st) \<le> length (promises st') \<and>
      (\<forall>p. p < length (promises st) \<longrightarrow> promises st ! p \<noteq> Pending \<longrightarrow>
           promises st' ! p = promises st ! p))"

section \<open>Example dispatchers\<close>

text \<open>A caller assigning a metadata object to a function: \<^verbatim>\<open>f.listenerData = d\<close>.\<close>

definition assign_listenerData :: "fref \<Rightarrow> ldata \<Rightarrow> world \<Rightarrow> world" where
  "assign_listenerData f d st =
     (if f < length (funs st)
      then st\<lparr>funs := (funs st)[f := (funs st ! f)\<lparr>listenerData := Some d\<rparr>]\<rparr>
      else st)"

text \<open>
  The example of the README: limits \<^verbatim>\<open>{ foo: 5 }\<close>, and the two listeners that
  return \<^verbatim>\<open>"doner"\<close> and \<^verbatim>\<open>"kebab"\<close>, then registered on \<^verbatim>\<open>"foo"\<close>.
\<close>

definition kebab_shop :: world where
  "kebab_shop =
     new_function ''(food) => { console.log(food); return `kebab` }'' (\<lambda>_. ([], Return (VStr ''kebab'')))
       (new_function ''(food) => { console.log(food); return `doner` }'' (\<lambda>_. ([], Return (VStr ''doner'')))
         (construct (Some (Some True)) (Some [''foo'' \<mapsto> 5])))"

definition kebab_registered :: world where
  "kebab_registered = snd (on ''foo'' 1 (snd (on ''foo'' 0 kebab_shop)))"

text \<open>The same two functions on a dispatcher with limits \<^verbatim>\<open>{ foo: 1 }\<close>.\<close>

definition one_allowed :: world where
  "one_allowed =
     new_function ''(food) => { console.log(food); return `kebab` }'' (\<lambda>_. ([], Return (VStr ''kebab'')))
       (new_function ''(food) => { console.log(food); return `doner` }'' (\<lambda>_. ([], Return (VStr ''doner'')))
         (construct (Some (Some True)) (Some [''foo'' \<mapsto> 1])))"

text \<open>
  Three functions with the same source text on a dispatcher whose limits object has no
  entry; then the first two registered under \<^verbatim>\<open>"x"\<close> with \<^verbatim>\<open>on\<close>; the first
  with \<^verbatim>\<open>once\<close> and the second with \<^verbatim>\<open>on\<close>; the first alone with \<^verbatim>\<open>once\<close>.
\<close>

definition twins :: world where
  "twins =
     new_function ''() => 1'' (\<lambda>_. ([], Return (VNum 1)))
       (new_function ''() => 1'' (\<lambda>_. ([], Return (VNum 1)))
         (new_function ''() => 1'' (\<lambda>_. ([], Return (VNum 1)))
           (construct None (Some Map.empty))))"

definition twins_registered :: world where
  "twins_registered = snd (on ''x'' 1 (snd (on ''x'' 0 twins)))"

definition twins_once_first :: world where
  "twins_once_first = snd (on ''x'' 1 (snd (once ''x'' 0 twins)))"

definition once_alone :: world where
  "once_alone = snd (once ''x'' 0 twins)"

text \<open>A dispatcher constructed without options and without limits, and one function.\<close>

definition bare :: world where
  "bare = new_function ''() => 1'' (\<lambda>_. ([], Return (VNum 1))) (construct None None)"

text \<open>One of the three functions under the empty name and two under \<^verbatim>\<open>"foo"\<close>.\<close>

definition counted :: world where
  "counted = snd (on ''foo'' 2 (snd (on ''foo'' 1 (snd (on [] 0 twins)))))"

text \<open>
  The first function of the README example with a metadata object made by the caller,
  \<^verbatim>\<open>once\<close> being an ordinary property: \<^verbatim>\<open>f.listenerData = { once: false }\<close>.
\<close>

definition kebab_with_data :: world where
  "kebab_with_data =
     assign_listenerData 0 \<lparr>suspended = False, once_field = Plain False, listened = Absent\<rparr> kebab_shop"

text \<open>
  Listeners that do not leave the dispatch alone, on a dispatcher whose limits object
  has no entry. In the order of their creation: three that return a number; one that
  throws; one that returns after \<^verbatim>\<open>emitter.off("x", f2)\<close>; one that returns after
  \<^verbatim>\<open>emitter.off("x", f2)\<close> and \<^verbatim>\<open>emitter.on("x", f2)\<close>; one that returns an
  object whose \<^verbatim>\<open>then\<close> calls the continuation at once; one that returns a pending
  promise of the host; one that calls \<^verbatim>\<open>emitter.emit("x", 1)\<close> when its argument
  is 0; one that registers \<^verbatim>\<open>f0\<close> again with \<^verbatim>\<open>emitter.once("x", f0)\<close>.
\<close>

definition rowdy :: world where
  "rowdy =
     new_function ''() => { emitter.once(`x`, f0); return 9 }''
         (\<lambda>_. ([Once ''x'' 0], Return (VNum 9)))
       (new_function ''(n) => { if (n === 0) emitter.emit(`x`, 1); return 8 }''
         (\<lambda>args. (if args = [VNum 0] then [Emit ''x'' [VNum 1]] else [], Return (VNum 8)))
       (new_function ''() => new Promise(() => {})'' (\<lambda>_. ([], Return (VPromise 0)))
       (new_function ''() => ({ then(cb) { cb() } })'' (\<lambda>_. ([], Return (VThenable ThenNow 0)))
       (new_function ''() => { emitter.off(`x`, f2); emitter.on(`x`, f2); return 5 }''
         (\<lambda>_. ([Off ''x'' (Some 2), On ''x'' 2], Return (VNum 5)))
       (new_function ''() => { emitter.off(`x`, f2); return 4 }''
         (\<lambda>_. ([Off ''x'' (Some 2)], Return (VNum 4)))
       (new_function ''() => { throw `no` }'' (\<lambda>_. ([], Raise (VStr ''no'')))
       (new_function ''() => 2'' (\<lambda>_. ([], Return (VNum 2)))
       (new_function ''() => 1'' (\<lambda>_. ([], Return (VNum 1)))
       (new_function ''() => 0'' (\<lambda>_. ([], Return (VNum 0)))
         (construct None (Some Map.empty)))))))))))"

section \<open>Lemmas\<close>

subsection \<open>Sets of listeners\<close>

lemma length_delete_entry [simp]: "length (delete_entry l es) = length es"
  by (cases l) simp_all

lemma members_Nil [simp]: "members [] = []"
  by (simp add: members_def map_filter_simps)

lemma members_Cons_None [simp]: "members (None # es) = members es"
  by (simp add: members_def map_filter_simps)

lemma members_Cons_Some [simp]: "members (Some x # es) = x # members es"
  by (simp add: members_def map_filter_simps)

lemma members_append [simp]: "members (a @ b) = members a @ members b"
proof (induction a)
  case Nil
  show ?case by simp
next
  case (Cons x a)
  then show ?case by (cases x) simp_all
qed

lemma set_members: "set (members es) = {f. Some f \<in> set es}"
proof (induction es)
  case Nil
  show ?case by simp
next
  case (Cons x es)
  then show ?case by (cases x) auto
qed

lemma members_delete: "members (delete_entry (Some f) es) = filter (\<lambda>x. x \<noteq> f) (members es)"
proof (induction es)
  case Nil
  show ?case by simp
next
  case (Cons x es)
  then show ?case by (cases x) auto
qed

lemma delete_entry_idem: "delete_entry l (delete_entry l es) = delete_entry l es"
  by (cases l) simp_all

lemma delete_entry_absent: "l \<notin> set es \<Longrightarrow> delete_entry l es = es"
  by (cases l) (auto intro: map_idI)

lemma delete_entry_nth:
  "i < length es \<Longrightarrow> delete_entry l es ! i = (if l \<noteq> None \<and> es ! i = l then None else es ! i)"
  by (cases l) auto

lemma off_turn_deleted: "off_turn st l i (delete_entry l es) = delete_entry l es"
  by (simp add: off_turn_def delete_entry_idem split: option.split)

lemma off_fold:
  "n \<le> length es \<Longrightarrow>
   fold (off_turn st l) [0..<n] es =
     (if \<exists>i<n. \<exists>c. es ! i = Some c \<and> String_of st l = String_of st (Some c)
      then delete_entry l es else es)"
proof (induction n)
  case 0
  show ?case by simp
next
  case (Suc n)
  let ?P = "\<lambda>i. \<exists>c. es ! i = Some c \<and> String_of st l = String_of st (Some c)"
  from Suc have ih: "fold (off_turn st l) [0..<n] es = (if \<exists>i<n. ?P i then delete_entry l es else es)"
    by simp
  show ?case
  proof (cases "\<exists>i<n. ?P i")
    case True
    then have "\<exists>i<Suc n. ?P i" using less_Suc_eq by blast
    with True ih show ?thesis by (simp add: off_turn_deleted)
  next
    case False
    then have e: "(\<exists>i<Suc n. ?P i) \<longleftrightarrow> ?P n" using less_Suc_eq by auto
    have "fold (off_turn st l) [0..<n] es = es" by (simp only: ih False if_False)
    then have "fold (off_turn st l) [0..<Suc n] es = off_turn st l n es" by simp
    also have "\<dots> = (if ?P n then delete_entry l es else es)"
      by (auto simp: off_turn_def split: option.split)
    finally show ?thesis using e by simp
  qed
qed

lemma off_loop_eq: "off_loop st l es = delete_entry l es"
proof (cases l)
  case None
  then show ?thesis by (simp add: off_loop_def off_fold)
next
  case (Some f)
  show ?thesis
  proof (cases "Some f \<in> set es")
    case True
    then obtain i where "i < length es" "es ! i = Some f" by (auto simp: in_set_conv_nth)
    then have "\<exists>i<length es. \<exists>c. es ! i = Some c \<and> String_of st l = String_of st (Some c)"
      using Some by auto
    then show ?thesis by (simp add: off_loop_def off_fold)
  next
    case False
    with Some have "delete_entry l es = es" by (intro delete_entry_absent) simp
    then show ?thesis by (simp add: off_loop_def off_fold)
  qed
qed

subsection \<open>What every call respects\<close>

lemma evolves_refl: "evolves st st"
  by (simp add: evolves_def)

lemma evolves_trans: "evolves a b \<Longrightarrow> evolves b c \<Longrightarrow> evolves a c"
  unfolding evolves_def
  by (intro conjI allI impI) (auto dest: order_trans)

lemma set_at_cong: "sets st' = sets st \<Longrightarrow> set_at st' sid = set_at st sid"
  by (simp add: set_at_def)

lemma registry_ok_cong:
  "sets st' = sets st \<Longrightarrow> listeners st' = listeners st \<Longrightarrow> registry_ok st' = registry_ok st"
  by (simp add: registry_ok_def set_at_def)

lemma unshared_cong: "listeners st' = listeners st \<Longrightarrow> unshared st' = unshared st"
  by (simp add: unshared_def)

lemma sets_ok_cong: "sets st' = sets st \<Longrightarrow> sets_ok st' = sets_ok st"
  by (simp add: sets_ok_def)

lemma data_of_cong: "funs st' = funs st \<Longrightarrow> data_of st' f = data_of st f"
  by (simp add: data_of_def fun_at_def)

lemma evolves_same:
  assumes "funs st' = funs st" "sets st' = sets st" "listeners st' = listeners st"
    "warned st' = warned st" "warnings st' = warnings st" "limits st' = limits st"
    "limitWarn st' = limitWarn st" "promises st' = promises st"
  shows "evolves st st'"
  using assms
  by (simp add: evolves_def once_slot_def listened_slot_def is_suspended_def data_of_def fun_at_def
        registry_ok_def set_at_def unshared_def sets_ok_def)

lemma evolves_registry:
  assumes "registry_ok st \<Longrightarrow> unshared st \<Longrightarrow>
             registry_ok (st\<lparr>sets := S, listeners := L\<rparr>) \<and> unshared (st\<lparr>sets := S, listeners := L\<rparr>)"
    and "sets_ok st \<Longrightarrow> list_all (\<lambda>es. distinct (members es)) S"
  shows "evolves st (st\<lparr>sets := S, listeners := L\<rparr>)"
  using assms
  by (simp add: evolves_def once_slot_def listened_slot_def is_suspended_def data_of_def fun_at_def
        sets_ok_def)

lemma evolves_metadata:
  assumes f: "f < length (funs st)"
    and s: "suspended d' = is_suspended st f"
    and o: "\<And>b. once_slot st f = Fixed b \<Longrightarrow> once_field d' = Fixed b"
    and l: "listened d' = Fixed False \<Longrightarrow> listened_slot st f = Fixed False"
  shows "evolves st (st\<lparr>funs := (funs st)[f := (funs st ! f)\<lparr>listenerData := Some d'\<rparr>]\<rparr>)"
    (is "evolves st ?t")
proof -
  have r: "registry_ok ?t = registry_ok st" "unshared ?t = unshared st" "sets_ok ?t = sets_ok st"
    by (simp_all add: registry_ok_def set_at_def unshared_def sets_ok_def)
  have d: "data_of ?t g = (if g = f then Some d' else data_of st g)" for g
    using f by (simp add: data_of_def fun_at_def)
  show ?thesis
    unfolding evolves_def r
    using f s o l
    by (auto simp: d once_slot_def listened_slot_def is_suspended_def nth_list_update)
qed

lemma defineProperty_Fixed: "defineProperty (Fixed b) v = Inr p \<Longrightarrow> p = Fixed b"
  by (simp split: if_splits)

lemma defineProperty_True: "defineProperty s True = Inr p \<Longrightarrow> p \<noteq> Fixed False"
  by (cases s) (auto split: if_splits)

lemma define_once_Inr:
  assumes "define_once v f st = Inr st1"
  obtains l d p where "fun_at st f = Some l"
    "d = (case listenerData l of None \<Rightarrow> empty_data | Some d' \<Rightarrow> d')"
    "defineProperty (once_field d) v = Inr p"
    "st1 = st\<lparr>funs := (funs st)[f := l\<lparr>listenerData := Some (d\<lparr>once_field := p\<rparr>)\<rparr>]\<rparr>"
  using assms by (auto simp: define_once_def Let_def split: option.splits sum.splits)

lemma once_slot_fun_at:
  "fun_at st f = Some l \<Longrightarrow>
     once_slot st f = once_field (case listenerData l of None \<Rightarrow> empty_data | Some d' \<Rightarrow> d')"
  by (simp add: once_slot_def data_of_def empty_data_def split: option.splits)

lemma define_once_fields:
  assumes "define_once v f st = Inr st1"
  shows "listeners st1 = listeners st" "warned st1 = warned st" "warnings st1 = warnings st"
    "limits st1 = limits st" "limitWarn st1 = limitWarn st" "promises st1 = promises st"
    "calls st1 = calls st" "continuations st1 = continuations st" "sets st1 = sets st"
    "length (funs st1) = length (funs st)"
  using assms by (auto elim!: define_once_Inr)

lemma evolves_define_once:
  assumes "define_once v f st = Inr st1"
  shows "evolves st st1"
proof -
  from assms obtain l d p where l: "fun_at st f = Some l"
    and d: "d = (case listenerData l of None \<Rightarrow> empty_data | Some d' \<Rightarrow> d')"
    and p: "defineProperty (once_field d) v = Inr p"
    and st1: "st1 = st\<lparr>funs := (funs st)[f := l\<lparr>listenerData := Some (d\<lparr>once_field := p\<rparr>)\<rparr>]\<rparr>"
    by (rule define_once_Inr)
  from l have f: "f < length (funs st)" and l': "l = funs st ! f"
    by (auto simp: fun_at_def split: if_splits)
  have o: "once_slot st f = once_field d" using once_slot_fun_at [OF l] d by simp
  have "evolves st (st\<lparr>funs := (funs st)[f := (funs st ! f)\<lparr>listenerData := Some (d\<lparr>once_field := p\<rparr>)\<rparr>]\<rparr>)"
  proof (rule evolves_metadata [OF f])
    show "suspended (d\<lparr>once_field := p\<rparr>) = is_suspended st f"
      using l d by (simp add: is_suspended_def data_of_def empty_data_def split: option.splits)
    show "once_field (d\<lparr>once_field := p\<rparr>) = Fixed b" if "once_slot st f = Fixed b" for b
      using that o p by (auto split: if_splits)
    show "listened_slot st f = Fixed False" if "listened (d\<lparr>once_field := p\<rparr>) = Fixed False"
      using that l d by (simp add: listened_slot_def data_of_def empty_data_def split: option.splits)
  qed
  then show ?thesis by (simp add: st1 l')
qed

lemma mark_listened_Inr:
  assumes "mark_listened c st = Inr st1"
  obtains d p where "data_of st c = Some d" "defineProperty (listened d) True = Inr p"
    "st1 = st\<lparr>funs := (funs st)[c := (funs st ! c)\<lparr>listenerData := Some (d\<lparr>listened := p\<rparr>)\<rparr>]\<rparr>"
  using assms by (auto simp: mark_listened_def split: option.splits sum.splits)

lemma mark_listened_fields:
  assumes "mark_listened c st = Inr st1"
  shows "listeners st1 = listeners st" "calls st1 = calls st" "promises st1 = promises st"
    "continuations st1 = continuations st" "sets st1 = sets st"
    "warned st1 = warned st" "warnings st1 = warnings st"
    "limits st1 = limits st" "limitWarn st1 = limitWarn st"
    "length (funs st1) = length (funs st)"
  using assms by (auto elim!: mark_listened_Inr)

lemma evolves_mark_listened:
  assumes "mark_listened c st = Inr st1"
  shows "evolves st st1"
proof -
  from assms obtain d p where d: "data_of st c = Some d"
    and dp: "defineProperty (listened d) True = Inr p"
    and st1: "st1 = st\<lparr>funs := (funs st)[c := (funs st ! c)\<lparr>listenerData := Some (d\<lparr>listened := p\<rparr>)\<rparr>]\<rparr>"
    by (rule mark_listened_Inr)
  from d have c: "c < length (funs st)"
    by (auto simp: data_of_def fun_at_def split: if_splits)
  show ?thesis
    unfolding st1
  proof (rule evolves_metadata [OF c])
    show "suspended (d\<lparr>listened := p\<rparr>) = is_suspended st c"
      using d by (simp add: is_suspended_def)
    show "once_field (d\<lparr>listened := p\<rparr>) = Fixed b" if "once_slot st c = Fixed b" for b
      using that d by (simp add: once_slot_def)
    show "listened_slot st c = Fixed False" if "listened (d\<lparr>listened := p\<rparr>) = Fixed False"
      using that defineProperty_True [OF dp] by simp
  qed
qed

subsection \<open>The registry under \<^verbatim>\<open>off\<close> and the registrations\<close>

lemma update_absent: "map_of al k = None \<Longrightarrow> AList.update k v al = al @ [(k, v)]"
  by (induction al) (auto split: if_splits)

lemma off_None: "map_of (listeners st) e = None \<Longrightarrow> off e l st = st"
  by (simp add: off_def)

lemma off_Some:
  assumes "map_of (listeners st) e = Some sid"
  shows "off e l st =
           st\<lparr>sets := (sets st)[sid := delete_entry l (set_at st sid)],
              listeners := (if members (delete_entry l (set_at st sid)) \<noteq> []
                            then listeners st else AList.delete e (listeners st))\<rparr>"
  using assms
  by (simp add: off_def off_loop_eq Let_def size_entries_def map_set_def map_delete_def
        AList.update_triv)

lemma set_at_members_bound: "members (set_at st s) \<noteq> [] \<Longrightarrow> s < length (sets st)"
  by (simp add: set_at_def split: if_splits)

lemma unshared_key:
  assumes "unshared st" "(a, s) \<in> set (listeners st)" "(b, s) \<in> set (listeners st)"
  shows "a = b"
proof -
  from assms(1) have "inj_on snd (set (listeners st))" by (simp add: unshared_def distinct_map)
  from inj_onD [OF this, of "(a, s)" "(b, s)"] assms(2,3) show ?thesis by simp
qed

lemma distinct_members_delete: "distinct (members es) \<Longrightarrow> distinct (members (delete_entry l es))"
  by (cases l) (simp_all add: members_delete del: delete_entry.simps(2))

lemma distinct_members_add: "distinct (members es) \<Longrightarrow> distinct (members (add_entry x es))"
  by (simp add: add_entry_def set_members)

lemma members_add_not_Nil: "members (add_entry x es) \<noteq> []"
proof (cases "Some x \<in> set es")
  case True
  then have "x \<in> set (members es)" by (simp add: set_members)
  then have "members es \<noteq> []" by auto
  with True show ?thesis by (simp add: add_entry_def)
next
  case False
  then show ?thesis by (simp add: add_entry_def)
qed

lemma list_all_list_update: "list_all P xs \<Longrightarrow> P x \<Longrightarrow> list_all P (xs[i := x])"
  by (auto simp: list_all_iff dest!: set_update_subset_insert [THEN subsetD])

lemma sets_ok_set_at: "sets_ok st \<Longrightarrow> distinct (members (set_at st sid))"
  by (simp add: sets_ok_def set_at_def list_all_length)

lemma evolves_off: "evolves st (off e l st)"
proof (cases "map_of (listeners st) e")
  case None
  then show ?thesis by (simp add: off_None evolves_refl)
next
  case (Some sid)
  let ?es = "delete_entry l (set_at st sid)"
  let ?L = "if members ?es \<noteq> [] then listeners st else AList.delete e (listeners st)"
  let ?t = "st\<lparr>sets := (sets st)[sid := ?es], listeners := ?L\<rparr>"
  from Some have mem: "(e, sid) \<in> set (listeners st)" by (rule map_of_SomeD)
  have "evolves st ?t"
  proof (rule evolves_registry)
    assume ok: "registry_ok st" and un: "unshared st"
    from ok mem have "members (set_at st sid) \<noteq> []"
      by (auto simp: registry_ok_def list_all_iff)
    then have b: "sid < length (sets st)" by (rule set_at_members_bound)
    have sub: "set ?L \<subseteq> set (listeners st)"
      by (auto simp: AList.delete_eq)
    have "members (set_at ?t s) \<noteq> []" if "(k, s) \<in> set ?L" for k s
    proof (cases "s = sid")
      case False
      from that sub have "(k, s) \<in> set (listeners st)" by blast
      with ok have "members (set_at st s) \<noteq> []"
        by (auto simp: registry_ok_def list_all_iff)
      with False show ?thesis by (auto simp: set_at_def split: if_splits)
    next
      case True
      with that sub have "(k, sid) \<in> set (listeners st)" by auto
      with mem un have k: "k = e" by (auto dest: unshared_key)
      show ?thesis
      proof (cases "members ?es \<noteq> []")
        case True
        with \<open>s = sid\<close> b show ?thesis by (simp add: set_at_def)
      next
        case False
        with that k have "(e, s) \<in> set (AList.delete e (listeners st))" by simp
        then show ?thesis by (simp add: AList.delete_eq)
      qed
    qed
    then have 1: "registry_ok ?t" by (auto simp: registry_ok_def list_all_iff)
    have 2: "unshared ?t"
      using un by (auto simp: unshared_def AList.delete_eq distinct_map_filter)
    from 1 2 show "registry_ok ?t \<and> unshared ?t" ..
  next
    assume "sets_ok st"
    then show "list_all (\<lambda>es. distinct (members es)) ((sets st)[sid := ?es])"
      by (intro list_all_list_update distinct_members_delete sets_ok_set_at)
         (simp add: sets_ok_def)
  qed
  then show ?thesis by (simp add: off_Some [OF Some])
qed

lemma limit_check_cases:
  obtains (Raised) "limits st = None" "limit_check e st = (Threw ReadOfUndefined, st)"
  | (Silent) lim where "limits st = Some lim"
      "\<not> (js_gt (lim e) (size_of st e) \<and> \<not> warned st \<and> limitWarn st)"
      "limit_check e st = (Returned (), st)"
  | (Warned) lim where "limits st = Some lim"
      "js_gt (lim e) (size_of st e)" "\<not> warned st" "limitWarn st"
      "limit_check e st =
         (Returned (), st\<lparr>warnings := warnings st @ [(the (lim e), e)], warned := True\<rparr>)"
proof (cases "limits st")
  case None
  then show thesis
    by (intro Raised) (simp_all add: limit_check_def differs_from_string_undefined_def)
next
  case (Some lim)
  show thesis
  proof (cases "js_gt (lim e) (size_of st e) \<and> \<not> warned st \<and> limitWarn st")
    case True
    with Some show thesis
      by (intro Warned [of lim]) (simp_all add: limit_check_def differs_from_string_undefined_def)
  next
    case False
    with Some show thesis
      by (intro Silent [of lim]) (auto simp: limit_check_def differs_from_string_undefined_def)
  qed
qed

lemma evolves_limit_check: "evolves st (snd (limit_check e st))"
proof (cases rule: limit_check_cases [of st e])
  case Raised
  then show ?thesis by (simp add: evolves_refl)
next
  case (Silent lim)
  then show ?thesis by (simp add: evolves_refl)
next
  case (Warned lim)
  then show ?thesis
    by (simp add: evolves_def once_slot_def listened_slot_def is_suspended_def data_of_def fun_at_def
          registry_ok_def set_at_def unshared_def sets_ok_def)
qed

lemma limit_check_fields:
  "funs (snd (limit_check e st)) = funs st" "listeners (snd (limit_check e st)) = listeners st"
  "sets (snd (limit_check e st)) = sets st"
  "promises (snd (limit_check e st)) = promises st" "calls (snd (limit_check e st)) = calls st"
  "continuations (snd (limit_check e st)) = continuations st"
  "limits (snd (limit_check e st)) = limits st" "limitWarn (snd (limit_check e st)) = limitWarn st"
  by (cases rule: limit_check_cases [of st e]; simp)+

text \<open>The state in which the registration makes its limit test.\<close>

lemma register_listener_eq:
  "register_listener v e f st =
     (case define_once v f st of
        Inl err \<Rightarrow> (Threw err, st)
      | Inr st1 \<Rightarrow>
          limit_check e
            (case map_of (listeners st) e of
               None \<Rightarrow> st1\<lparr>sets := sets st @ [[Some f]],
                            listeners := listeners st @ [(e, length (sets st))]\<rparr>
             | Some sid \<Rightarrow> st1\<lparr>sets := (sets st)[sid := add_entry f (set_at st sid)],
                                listeners := listeners st\<rparr>))"
proof (cases "define_once v f st")
  case (Inl err)
  then show ?thesis by (simp add: register_listener_def Let_def)
next
  case (Inr st1)
  note fs = define_once_fields [OF Inr]
  have s: "set_at st1 sid = set_at st sid" for sid by (simp add: set_at_def fs)
  show ?thesis
    by (cases "map_of (listeners st) e")
       (simp_all add: register_listener_def Let_def map_has_def Inr fs s map_set_def
          update_absent AList.update_triv)
qed

lemma evolves_insert:
  "evolves st
     (case map_of (listeners st) e of
        None \<Rightarrow> st\<lparr>sets := sets st @ [[Some f]], listeners := listeners st @ [(e, length (sets st))]\<rparr>
      | Some sid \<Rightarrow> st\<lparr>sets := (sets st)[sid := add_entry f (set_at st sid)], listeners := listeners st\<rparr>)"
proof (cases "map_of (listeners st) e")
  case None
  let ?t = "st\<lparr>sets := sets st @ [[Some f]], listeners := listeners st @ [(e, length (sets st))]\<rparr>"
  have "evolves st ?t"
  proof (rule evolves_registry)
    assume ok: "registry_ok st" and un: "unshared st"
    have b: "s < length (sets st)" if "(k, s) \<in> set (listeners st)" for k s
    proof -
      from ok that have "members (set_at st s) \<noteq> []" by (auto simp: registry_ok_def list_all_iff)
      then show ?thesis by (rule set_at_members_bound)
    qed
    have 1: "registry_ok ?t"
      using ok b by (auto simp: registry_ok_def list_all_iff set_at_def nth_append)
    have "length (sets st) \<notin> snd ` set (listeners st)" using b by force
    with un have 2: "unshared ?t" by (simp add: unshared_def)
    from 1 2 show "registry_ok ?t \<and> unshared ?t" ..
  next
    assume "sets_ok st"
    then show "list_all (\<lambda>es. distinct (members es)) (sets st @ [[Some f]])"
      by (simp add: sets_ok_def)
  qed
  with None show ?thesis by simp
next
  case (Some sid)
  let ?t = "st\<lparr>sets := (sets st)[sid := add_entry f (set_at st sid)], listeners := listeners st\<rparr>"
  have "evolves st ?t"
  proof (rule evolves_registry)
    assume ok: "registry_ok st" and un: "unshared st"
    have "members (set_at ?t s) \<noteq> []" if "(k, s) \<in> set (listeners st)" for k s
    proof -
      from ok that have m: "members (set_at st s) \<noteq> []" by (auto simp: registry_ok_def list_all_iff)
      then have "s < length (sets st)" by (rule set_at_members_bound)
      with m show ?thesis
        by (cases "s = sid") (auto simp: set_at_def members_add_not_Nil)
    qed
    then have 1: "registry_ok ?t" by (auto simp: registry_ok_def list_all_iff)
    from un have 2: "unshared ?t" by (simp add: unshared_def)
    from 1 2 show "registry_ok ?t \<and> unshared ?t" ..
  next
    assume "sets_ok st"
    then show "list_all (\<lambda>es. distinct (members es)) ((sets st)[sid := add_entry f (set_at st sid)])"
      by (intro list_all_list_update distinct_members_add sets_ok_set_at)
         (simp add: sets_ok_def)
  qed
  with Some show ?thesis by simp
qed

lemma evolves_register: "evolves st (snd (register_listener v e f st))"
proof (cases "define_once v f st")
  case (Inl err)
  then show ?thesis by (simp add: register_listener_eq evolves_refl)
next
  case (Inr st1)
  note fs = define_once_fields [OF Inr]
  let ?s2 = "case map_of (listeners st1) e of
               None \<Rightarrow> st1\<lparr>sets := sets st1 @ [[Some f]],
                            listeners := listeners st1 @ [(e, length (sets st1))]\<rparr>
             | Some sid \<Rightarrow> st1\<lparr>sets := (sets st1)[sid := add_entry f (set_at st1 sid)],
                                listeners := listeners st1\<rparr>"
  have s: "set_at st1 sid = set_at st sid" for sid by (simp add: set_at_def fs)
  have 1: "evolves st st1" using Inr by (rule evolves_define_once)
  have 2: "evolves st1 ?s2" by (rule evolves_insert)
  have 3: "evolves ?s2 (snd (limit_check e ?s2))" by (rule evolves_limit_check)
  have "snd (register_listener v e f st) = snd (limit_check e ?s2)"
    by (simp add: register_listener_eq Inr fs s cong: option.case_cong)
  with 1 2 3 show ?thesis by (auto intro: evolves_trans)
qed

lemma evolves_calls: "evolves st (st\<lparr>calls := k\<rparr>)"
  by (rule evolves_same) simp_all

lemma evolves_continuations: "evolves st (st\<lparr>continuations := k\<rparr>)"
  by (rule evolves_same) simp_all

lemma evolves_resolve: "evolves st (st\<lparr>promises := resolve p args (promises st)\<rparr>)"
  unfolding evolves_def
  by (auto simp: resolve_def once_slot_def listened_slot_def is_suspended_def data_of_def fun_at_def
        registry_ok_def set_at_def unshared_def sets_ok_def nth_list_update)

lemma evolves_after_call:
  assumes "after_call e c st = Inr st2"
  shows "evolves st st2"
  using assms evolves_off
  by (auto simp: after_call_def split: sum.splits if_splits
        dest!: evolves_mark_listened intro: evolves_trans)

lemma evolves_settle: "evolves st (snd (settle e c r rv st))"
  by (auto simp: settle_def evolves_refl split: sum.splits dest: evolves_after_call)

lemma evolves_call_then: "evolves st (snd (call_then e c r rv st))"
  by (auto simp: call_then_def evolves_settle evolves_refl evolves_continuations
        split: val.splits then_kind.splits)

lemma evolves_run_continuation: "evolves st (snd (run_continuation k st))"
proof (cases "k < length (continuations st)")
  case False
  then show ?thesis by (simp add: run_continuation_def evolves_refl)
next
  case True
  obtain e c r where k: "continuations st ! k = (e, c, r)" by (cases "continuations st ! k")
  let ?s1 = "st\<lparr>continuations := take k (continuations st) @ drop (Suc k) (continuations st)\<rparr>"
  have 1: "evolves st ?s1" by (rule evolves_continuations)
  show ?thesis
    using True k 1
    by (auto simp: run_continuation_def Let_def split: sum.splits
          dest!: evolves_after_call intro: evolves_trans)
qed

lemma evolves_alloc:
  "listenerData l = None \<Longrightarrow>
   evolves st (st\<lparr>promises := promises st @ [x], funs := funs st @ [l]\<rparr>)"
  unfolding evolves_def
  by (auto simp: once_slot_def listened_slot_def is_suspended_def data_of_def fun_at_def nth_append
        registry_ok_def set_at_def unshared_def sets_ok_def split: if_splits)

lemma promises_update_other:
  "once_slot (s\<lparr>promises := ps\<rparr>) f = once_slot s f"
  "listened_slot (s\<lparr>promises := ps\<rparr>) f = listened_slot s f"
  "is_suspended (s\<lparr>promises := ps\<rparr>) f = is_suspended s f"
  "data_of (s\<lparr>promises := ps\<rparr>) f = data_of s f"
  "registry_ok (s\<lparr>promises := ps\<rparr>) = registry_ok s"
  "unshared (s\<lparr>promises := ps\<rparr>) = unshared s"
  "sets_ok (s\<lparr>promises := ps\<rparr>) = sets_ok s"
  by (simp_all add: once_slot_def listened_slot_def is_suspended_def data_of_def fun_at_def
        registry_ok_def set_at_def unshared_def sets_ok_def)

lemma evolves_settle_new:
  assumes "evolves st s" and "length (promises st) \<le> p"
  shows "evolves st (s\<lparr>promises := (promises s)[p := x]\<rparr>)"
  using assms unfolding evolves_def
  by (simp add: promises_update_other)

lemma evolves_onceAsync: "evolves st (snd (onceAsync e st))"
proof -
  let ?p = "length (promises st)" and ?f = "length (funs st)"
  let ?s1 = "st\<lparr>promises := promises st @ [Pending],
                  funs := funs st @ [\<lparr>source_text = resolver_text, body = Resolver ?p,
                                       listenerData = None\<rparr>]\<rparr>"
  obtain r s2 where o: "once e ?f ?s1 = (r, s2)" by (cases "once e ?f ?s1")
  have "evolves ?s1 s2" using evolves_register [of ?s1 True e ?f] o by (simp add: once_def)
  moreover have "evolves st ?s1" by (rule evolves_alloc) simp
  ultimately have 2: "evolves st s2" by (auto intro: evolves_trans)
  show ?thesis
    using o 2 by (cases r) (simp_all add: onceAsync_def Let_def evolves_settle_new)
qed

subsection \<open>Relations kept by the listeners are kept by the dispatch\<close>

lemma run_script_rel:
  assumes refl: "\<And>s. R s s" and trans: "\<And>a b c. R a b \<Longrightarrow> R b c \<Longrightarrow> R a c"
    and X: "\<And>c s. R s (snd (X c s))"
  shows "R st (snd (run_script X cs st))"
proof (induction cs arbitrary: st)
  case Nil
  show ?case by (simp add: refl)
next
  case (Cons c cs)
  obtain r s1 where x: "X c st = (r, s1)" by (cases "X c st")
  have 1: "R st s1" using X [of st c] x by simp
  show ?case
  proof (cases r)
    case (Returned u)
    with x have "run_script X (c # cs) st = run_script X cs s1" by simp
    with 1 Cons.IH [of s1] show ?thesis by (auto intro: trans)
  next
    case (Threw err)
    with x 1 show ?thesis by simp
  next
    case Unfinished
    with x 1 show ?thesis by simp
  qed
qed

lemma emit_loop_rel:
  assumes refl: "\<And>s. R s s" and trans: "\<And>a b c. R a b \<Longrightarrow> R b c \<Longrightarrow> R a c"
    and step: "\<And>c rv s. R s (snd (emit_body X e args c rv s))"
  shows "R st (snd (emit_loop X k e args sid i rv st))"
proof (induction k arbitrary: i rv st)
  case 0
  show ?case by (simp add: refl)
next
  case (Suc k)
  show ?case
  proof (cases "i < length (set_at st sid)")
    case False
    then show ?thesis by (simp add: refl)
  next
    case True
    show ?thesis
    proof (cases "set_at st sid ! i")
      case None
      with True show ?thesis using Suc.IH by simp
    next
      case (Some c)
      obtain r1 s1 where b: "emit_body X e args c rv st = (r1, s1)"
        by (cases "emit_body X e args c rv st")
      have f: "R st s1" using step [of st c rv] b by simp
      show ?thesis
      proof (cases r1)
        case (Returned rv1)
        with True Some b have "emit_loop X (Suc k) e args sid i rv st = emit_loop X k e args sid (Suc i) rv1 s1"
          by simp
        with f Suc.IH [of s1 "Suc i" rv1] show ?thesis by (auto intro: trans)
      next
        case (Threw err)
        with True Some b f show ?thesis by simp
      next
        case Unfinished
        with True Some b f show ?thesis by simp
      qed
    qed
  qed
qed

lemma evolves_invoke:
  assumes X: "\<And>c s. evolves s (snd (X c s))"
  shows "evolves st (snd (invoke X l c args st))"
proof (cases "body l")
  case (Code g)
  let ?s1 = "st\<lparr>calls := calls st @ [(c, args)]\<rparr>"
  have 1: "evolves st ?s1" by (rule evolves_calls)
  have 2: "evolves ?s1 (snd (run_script X (fst (g args)) ?s1))"
    by (rule run_script_rel [where R = evolves]) (auto intro: evolves_refl evolves_trans X)
  have "snd (invoke X l c args st) = snd (run_script X (fst (g args)) ?s1)"
    by (simp add: invoke_def Let_def Code split: prod.splits result.splits outcome.splits)
  with 1 2 show ?thesis by (auto intro: evolves_trans)
next
  case (Resolver p)
  let ?s1 = "st\<lparr>calls := calls st @ [(c, args)]\<rparr>"
  have 1: "evolves st ?s1" by (rule evolves_calls)
  have 2: "evolves ?s1 (?s1\<lparr>promises := resolve p args (promises ?s1)\<rparr>)" by (rule evolves_resolve)
  from 1 2 show ?thesis by (auto simp: invoke_def Let_def Resolver intro: evolves_trans)
qed

lemma evolves_emit_body:
  assumes X: "\<And>c s. evolves s (snd (X c s))"
  shows "evolves st (snd (emit_body X e args c rv st))"
proof (cases "fun_at st c")
  case None
  then show ?thesis by (simp add: emit_body_def evolves_refl)
next
  case (Some l)
  obtain r s1 where i: "invoke X l c args st = (r, s1)" by (cases "invoke X l c args st")
  have 1: "evolves st s1" using evolves_invoke [of X st l c args, OF X] i by simp
  have 2: "evolves s1 (snd (call_then e c x rv s1))" "evolves s1 (snd (settle e c x rv s1))" for x
    by (rule evolves_call_then, rule evolves_settle)
  show ?thesis
    using Some i 1 2
    by (cases r) (auto simp: emit_body_def evolves_refl intro: evolves_trans)
qed

lemma evolves_emit_with:
  assumes X: "\<And>c s. evolves s (snd (X c s))"
  shows "evolves st (snd (emit_with X k e args st))"
proof (cases "map_of (listeners st) e")
  case None
  then show ?thesis by (simp add: emit_with_def evolves_refl)
next
  case (Some sid)
  have "evolves st (snd (emit_loop X k e args sid 0 [] st))"
    by (rule emit_loop_rel [where R = evolves])
       (auto intro: evolves_refl evolves_trans evolves_emit_body X)
  with Some show ?thesis by (simp add: emit_with_def)
qed

lemma evolves_exec_with:
  assumes X: "\<And>c s. evolves s (snd (X c s))"
  shows "evolves st (snd (exec_with X k c st))"
proof (cases c)
  case (Emit e args)
  have "snd (exec_with X k (Emit e args) st) = snd (emit_with X k e args st)"
    by (simp split: prod.splits result.splits)
  with Emit evolves_emit_with [of X st k e args, OF X] show ?thesis by simp
qed (simp_all add: on_def once_def evolves_register evolves_onceAsync evolves_off
       evolves_run_continuation evolves_refl)

lemma evolves_nested: "evolves st (snd (nested n c st))"
proof (induction n arbitrary: c st)
  case 0
  show ?case by (simp add: evolves_refl)
next
  case (Suc n)
  show ?case by (simp add: evolves_exec_with Suc.IH)
qed

lemma evolves_exec: "evolves st (snd (exec n c st))"
  by (simp add: exec_def evolves_exec_with evolves_nested)

lemma evolves_emit: "evolves st (snd (emit n e args st))"
  by (simp add: emit_def evolves_emit_with evolves_nested)

lemma evolves_execs: "evolves st (execs n cs st)"
proof (induction cs arbitrary: st)
  case Nil
  show ?case by (simp add: execs_def evolves_refl)
next
  case (Cons c cs)
  have "evolves st (snd (exec n c st))" by (rule evolves_exec)
  moreover have "evolves (snd (exec n c st)) (execs n cs (snd (exec n c st)))" by (rule Cons.IH)
  ultimately show ?case by (simp add: execs_def evolves_trans)
qed

subsection \<open>Registration\<close>

lemma once_slot_cong: "funs st' = funs st \<Longrightarrow> once_slot st' f = once_slot st f"
  by (simp add: once_slot_def data_of_def fun_at_def)

lemma collection_cong:
  "sets st' = sets st \<Longrightarrow> listeners st' = listeners st \<Longrightarrow> collection st' e = collection st e"
  by (simp add: collection_def entries_of_def set_at_def split: option.split)

lemma define_once_refused:
  assumes "once_slot st f = Fixed b"
  shows "define_once (\<not> b) f st = Inl CannotRedefineProperty"
proof -
  from assms obtain l where l: "fun_at st f = Some l"
    by (cases "fun_at st f") (auto simp: once_slot_def data_of_def)
  let ?d = "case listenerData l of None \<Rightarrow> empty_data | Some d' \<Rightarrow> d'"
  from once_slot_fun_at [OF l] assms have "once_field ?d = Fixed b" by simp
  then show ?thesis by (simp add: define_once_def Let_def l)
qed

lemma define_once_accepts:
  assumes "can_register v st f"
  shows "\<exists>st1. define_once v f st = Inr st1"
proof -
  from assms obtain l where l: "fun_at st f = Some l" by (auto simp: can_register_def)
  let ?d = "case listenerData l of None \<Rightarrow> empty_data | Some d' \<Rightarrow> d'"
  from once_slot_fun_at [OF l] assms have "once_field ?d \<noteq> Fixed (\<not> v)"
    by (simp add: can_register_def)
  then have "\<exists>p. defineProperty (once_field ?d) v = Inr p"
    by (cases "once_field ?d") auto
  with l show ?thesis by (auto simp: define_once_def Let_def)
qed

lemma js_gt_Some: "js_gt x (Some n) \<longleftrightarrow> (\<exists>l. x = Some l \<and> l > n)"
  by (cases x) auto

lemma size_of_key:
  "map_of (listeners st) e \<noteq> None \<Longrightarrow> size_of st e = Some (int (length (collection st e)))"
  by (auto simp: size_of_def collection_def entries_of_def size_entries_def)

lemma insert_has_key:
  "map_of (listeners
     (case map_of (listeners st) e of
        None \<Rightarrow> st1\<lparr>sets := sets st @ [[Some f]], listeners := listeners st @ [(e, length (sets st))]\<rparr>
      | Some sid \<Rightarrow> st1\<lparr>sets := (sets st)[sid := add_entry f (set_at st sid)], listeners := listeners st\<rparr>)) e
   \<noteq> None"
  by (cases "map_of (listeners st) e") simp_all

lemma register_fields:
  "limits (snd (register_listener v e f st)) = limits st"
  "limitWarn (snd (register_listener v e f st)) = limitWarn st"
  using evolves_register [of st v e f] by (simp_all add: evolves_def)

lemma registry_ok_execs:
  "registry_ok st \<and> unshared st \<Longrightarrow> registry_ok (execs n cs st) \<and> unshared (execs n cs st)"
  using evolves_execs [of st n cs] by (simp add: evolves_def)

lemma fold_count:
  "fold (\<lambda>entry n. n + size_entries (set_at st (snd entry))) m a =
     a + sum_list (map (\<lambda>entry. length (members (set_at st (snd entry)))) m)"
  by (induction m arbitrary: a) (auto simp: size_entries_def)

subsection \<open>Removal\<close>

lemma off_fields:
  "funs (off e l st) = funs st" "calls (off e l st) = calls st"
  "warnings (off e l st) = warnings st" "warned (off e l st) = warned st"
  "promises (off e l st) = promises st" "limits (off e l st) = limits st"
  "limitWarn (off e l st) = limitWarn st" "continuations (off e l st) = continuations st"
  by (simp_all add: off_def Let_def split: option.splits)

text \<open>\<^verbatim>\<open>off\<close> removes its argument from the collection, by reference, and nothing else.\<close>

lemma collection_off:
  "collection (off e l st) e = members (delete_entry l (entries_of st e))"
proof (cases "map_of (listeners st) e")
  case None
  then show ?thesis by (cases l) (simp_all add: off_None collection_def entries_of_def)
next
  case (Some sid)
  show ?thesis
  proof (cases "sid < length (sets st)")
    case True
    with Some show ?thesis
      by (simp add: off_Some [OF Some] collection_def entries_of_def set_at_def delete_conv')
  next
    case False
    then have "set_at st sid = []" by (simp add: set_at_def)
    with Some False show ?thesis
      by (cases l) (simp_all add: off_Some [OF Some] collection_def entries_of_def delete_conv')
  qed
qed

lemma collection_off_Some:
  "collection (off e (Some f) st) e = filter (\<lambda>x. x \<noteq> f) (collection st e)"
  by (simp only: collection_off members_delete) (simp add: collection_def)

lemma collection_off_None: "collection (off e None st) e = collection st e"
  by (simp only: collection_off delete_entry.simps) (simp add: collection_def)

text \<open>Without limits a registration does not return, whatever the listener.\<close>

lemma register_without_limits:
  assumes "limits st = None"
  shows "fst (register_listener v e f st) \<noteq> Returned ()"
  using assms
  by (auto simp: register_listener_def limit_check_def define_once_def Let_def
        differs_from_string_undefined_def split: option.splits sum.splits)

subsection \<open>The \<^verbatim>\<open>once\<close> property\<close>

text \<open>A fixed \<^verbatim>\<open>once\<close> property keeps its value through every sequence of calls.\<close>

lemma fixed_once_is_kept:
  "once_slot st f = Fixed b \<Longrightarrow> once_slot (execs n cs st) f = Fixed b"
  using evolves_execs [of st n cs] by (simp add: evolves_def)

text \<open>
  A registration that would change a fixed \<^verbatim>\<open>once\<close> property raises and leaves
  the dispatcher as it was.
\<close>

lemma register_refused:
  "once_slot st f = Fixed b \<Longrightarrow>
   register_listener (\<not> b) e f st = (Threw CannotRedefineProperty, st)"
  by (simp add: register_listener_eq define_once_refused)

text \<open>
  On such a function \<^verbatim>\<open>once\<close> sets the property to true and a later \<^verbatim>\<open>on\<close>
  sets it to false again, both returning.
\<close>

lemma on_overrides_writable_once:
  "fst (once ''foo'' 0 kebab_with_data) = Returned () \<and>
   once_slot (snd (once ''foo'' 0 kebab_with_data)) 0 = Plain True \<and>
   fst (on ''bar'' 0 (snd (once ''foo'' 0 kebab_with_data))) = Returned () \<and>
   once_slot (snd (on ''bar'' 0 (snd (once ''foo'' 0 kebab_with_data)))) 0 = Plain False"
  by code_simp

subsection \<open>A turn of the dispatch loop for a listener that leaves the dispatcher alone\<close>

lemma script_fun_at: "fun_at st c = Some l \<Longrightarrow> script st c args = script_of (body l) args"
  by (simp add: script_def)

lemma answer_fun_at: "fun_at st c = Some l \<Longrightarrow> answer st c args = run_body (body l) args"
  by (simp add: answer_def)

lemma invoke_quiet:
  assumes "fun_at st c = Some l" "script st c args = []" "answer st c args = Return r"
  shows "invoke X l c args st =
           (Returned r,
            st\<lparr>calls := calls st @ [(c, args)],
               promises := (case body l of Code g \<Rightarrow> promises st
                            | Resolver p \<Rightarrow> resolve p args (promises st))\<rparr>)"
  using assms
  by (cases "body l")
     (simp_all add: invoke_def Let_def script_fun_at answer_fun_at script_of_def run_body_def)

lemma mark_listened_succeeds:
  assumes "data_of st c \<noteq> None" "listened_slot st c \<noteq> Fixed False"
  shows "\<exists>st1. mark_listened c st = Inr st1"
proof -
  from assms(1) obtain d where d: "data_of st c = Some d" by auto
  with assms(2) have "listened d \<noteq> Fixed False" by (simp add: listened_slot_def)
  then have "\<exists>p. defineProperty (listened d) True = Inr p"
    by (cases "listened d") auto
  with d show ?thesis by (auto simp: mark_listened_def)
qed

lemma mark_listened_is_once:
  assumes "mark_listened c st = Inr st1"
  shows "is_once st1 f = is_once st f"
proof -
  from assms obtain d p where d: "data_of st c = Some d"
    and st1: "st1 = st\<lparr>funs := (funs st)[c := (funs st ! c)\<lparr>listenerData := Some (d\<lparr>listened := p\<rparr>)\<rparr>]\<rparr>"
    by (rule mark_listened_Inr)
  from d have c: "c < length (funs st)"
    by (auto simp: data_of_def fun_at_def split: if_splits)
  have "data_of st1 f = (if f = c then Some (d\<lparr>listened := p\<rparr>) else data_of st f)"
    using c by (simp add: st1 data_of_def fun_at_def)
  with d show ?thesis by (simp add: is_once_def)
qed

lemma own_collection: "own e sid st \<Longrightarrow> collection st e = members (set_at st sid)"
  by (auto simp: own_def collection_def entries_of_def)

lemma delete_entry_at:
  assumes "distinct (members (pre @ Some c # rest))"
  shows "delete_entry (Some c) (pre @ Some c # rest) = pre @ None # rest"
proof -
  from assms have "c \<notin> set (members pre)" "c \<notin> set (members rest)" by auto
  then have "Some c \<notin> set pre" "Some c \<notin> set rest" by (simp_all add: set_members)
  then have "delete_entry (Some c) pre = pre" "delete_entry (Some c) rest = rest"
    by (blast intro: delete_entry_absent)+
  moreover have "delete_entry (Some c) (pre @ Some c # rest) =
                   delete_entry (Some c) pre @ None # delete_entry (Some c) rest"
    by simp
  ultimately show ?thesis by (simp only:)
qed

lemma off_sets:
  "map_of (listeners st) e = Some sid \<Longrightarrow>
   sets (off e l st) = (sets st)[sid := delete_entry l (set_at st sid)]"
  by (simp add: off_Some)

lemma off_listeners:
  "map_of (listeners st) e = Some sid \<Longrightarrow>
   listeners (off e l st) =
     (if members (delete_entry l (set_at st sid)) \<noteq> [] then listeners st
      else AList.delete e (listeners st))"
  by (simp add: off_Some)

lemma set_at_updated:
  "sid < length (sets st) \<Longrightarrow> sets st' = (sets st)[sid := es] \<Longrightarrow> set_at st' sid = es"
  by (simp add: set_at_def)

text \<open>Removing, through \<^verbatim>\<open>off\<close>, the listener at which the iterator stands.\<close>

lemma off_at:
  assumes s: "set_at st sid = pre @ Some c # rest" and o: "own e sid st"
    and d: "distinct (members (pre @ Some c # rest))"
  shows "set_at (off e (Some c) st) sid = pre @ None # rest" "own e sid (off e (Some c) st)"
proof -
  from s have b: "sid < length (sets st)" by (auto simp: set_at_def split: if_splits)
  from s o have m: "map_of (listeners st) e = Some sid" by (auto simp: own_def)
  have del: "delete_entry (Some c) (set_at st sid) = pre @ None # rest"
    unfolding s using d by (rule delete_entry_at)
  from set_at_updated [OF b off_sets [OF m]]
  show 1: "set_at (off e (Some c) st) sid = pre @ None # rest"
    by (simp only: del)
  show "own e sid (off e (Some c) st)"
  proof (cases "members (pre @ None # rest) = []")
    case True
    then have "map_of (listeners (off e (Some c) st)) e = None"
      by (simp only: off_listeners [OF m] del) (simp add: delete_conv')
    with True 1 show ?thesis by (simp only: own_def) simp
  next
    case False
    then have "listeners (off e (Some c) st) = listeners st"
      by (simp only: off_listeners [OF m] del) simp
    with m show ?thesis by (simp add: own_def)
  qed
qed

lemma own_cong:
  "sets st' = sets st \<Longrightarrow> listeners st' = listeners st \<Longrightarrow> own e sid st' = own e sid st"
  by (simp add: own_def set_at_def)

lemma is_once_cong: "funs st' = funs st \<Longrightarrow> is_once st' f = is_once st f"
  by (simp add: is_once_def data_of_def fun_at_def)

text \<open>
  The three actions for the listener at which the iterator stands, when its metadata
  can be written.
\<close>

lemma settle_at:
  assumes s: "set_at st sid = pre @ Some c # rest" and o: "own e sid st"
    and d: "distinct (members (pre @ Some c # rest))"
    and w: "data_of st c \<noteq> None" "listened_slot st c \<noteq> Fixed False"
  shows "\<exists>st1. settle e c r rv st = (Returned (set_add r rv), st1) \<and> calls st1 = calls st \<and>
           set_at st1 sid = pre @ (if is_once st c then None else Some c) # rest \<and>
           own e sid st1"
proof -
  from mark_listened_succeeds [OF w] obtain st1 where m: "mark_listened c st = Inr st1" by blast
  note fs = mark_listened_fields [OF m]
  have "set_at st1 sid = set_at st sid" by (rule set_at_cong) (simp add: fs)
  with s have s1: "set_at st1 sid = pre @ Some c # rest" by simp
  have o1: "own e sid st1" using o own_cong [of st1 st e sid] fs by simp
  have i: "is_once st1 c = is_once st c" using m by (rule mark_listened_is_once)
  show ?thesis
  proof (cases "is_once st c")
    case True
    with m i have "settle e c r rv st = (Returned (set_add r rv), off e (Some c) st1)"
      by (simp add: settle_def after_call_def)
    with off_at [OF s1 o1 d] True fs show ?thesis by (simp add: off_fields)
  next
    case False
    with m i have "settle e c r rv st = (Returned (set_add r rv), st1)"
      by (simp add: settle_def after_call_def)
    with s1 o1 False fs show ?thesis by simp
  qed
qed

lemma settles_inside_cases:
  "settles_inside r \<Longrightarrow> \<not> isPromiseLike r \<or> (\<exists>x. r = VThenable ThenNow x)"
  by (cases r rule: settles_inside.cases) simp_all

lemma call_then_later:
  assumes "isPromiseLike r" "\<not> settles_inside r" "\<not> then_raises r"
  shows "call_then e c r rv st =
           (Returned rv, st\<lparr>continuations := continuations st @ [(e, c, r)]\<rparr>)"
proof (cases r)
  case (VThenable k x)
  with assms show ?thesis by (cases k) (simp_all add: call_then_def)
qed (simp_all add: call_then_def)

lemma emit_body_at:
  assumes s: "set_at st sid = pre @ Some c # rest" and o: "own e sid st"
    and d: "distinct (members (pre @ Some c # rest))"
    and r: "runs_cleanly st args c"
  shows "\<exists>st1. emit_body X e args c rv st =
             (Returned (if is_suspended st c then rv
                        else case contribution st args c of None \<Rightarrow> rv | Some x \<Rightarrow> set_add x rv), st1) \<and>
           calls st1 = calls st @ (if is_suspended st c then [] else [(c, args)]) \<and>
           set_at st1 sid = pre @ (if removed_on_return st args c then None else Some c) # rest \<and>
           own e sid st1"
proof -
  from r obtain l where l: "fun_at st c = Some l" by (auto simp: runs_cleanly_def)
  show ?thesis
  proof (cases "is_suspended st c")
    case True
    with l s o show ?thesis by (simp add: emit_body_def removed_on_return_def)
  next
    case False
    with r obtain x where q: "script st c args = []" and a: "answer st c args = Return x"
      and nr: "\<not> then_raises x"
      and w: "settles_inside x \<Longrightarrow> data_of st c \<noteq> None \<and> listened_slot st c \<noteq> Fixed False"
      by (auto simp: runs_cleanly_def split: outcome.splits)
    let ?s1 = "st\<lparr>calls := calls st @ [(c, args)],
                   promises := (case body l of Code g \<Rightarrow> promises st
                                | Resolver p \<Rightarrow> resolve p args (promises st))\<rparr>"
    have i: "invoke X l c args st = (Returned x, ?s1)" using l q a by (rule invoke_quiet)
    have "set_at ?s1 sid = set_at st sid" by (simp add: set_at_def)
    with s have s1: "set_at ?s1 sid = pre @ Some c # rest" by simp
    have o1: "own e sid ?s1" using o own_cong [of ?s1 st e sid] by simp
    have f1: "data_of ?s1 c = data_of st c" "listened_slot ?s1 c = listened_slot st c"
      "is_once ?s1 c = is_once st c"
      by (simp_all add: data_of_def fun_at_def listened_slot_def is_once_def)
    show ?thesis
    proof (cases "settles_inside x")
      case True
      with w f1 have w1: "data_of ?s1 c \<noteq> None" "listened_slot ?s1 c \<noteq> Fixed False" by simp_all
      from settle_at [OF s1 o1 d w1, of x rv] obtain st2
        where st2: "settle e c x rv ?s1 = (Returned (set_add x rv), st2)" "calls st2 = calls ?s1"
          "set_at st2 sid = pre @ (if is_once ?s1 c then None else Some c) # rest" "own e sid st2"
        by blast
      have b: "emit_body X e args c rv st = settle e c x rv ?s1"
        using l False i True settles_inside_cases [OF True]
        by (auto simp: emit_body_def call_then_def)
      from True a have c: "contribution st args c = Some x" by (simp add: contribution_def)
      from b st2 c False f1 show ?thesis by (simp add: removed_on_return_def)
    next
      case no: False
      then have p: "isPromiseLike x" by (cases x rule: settles_inside.cases) simp_all
      have b: "emit_body X e args c rv st =
                 (Returned rv, ?s1\<lparr>continuations := continuations ?s1 @ [(e, c, x)]\<rparr>)"
        using l False i p call_then_later [OF p no nr]
        by (simp add: emit_body_def)
      from no a have c: "contribution st args c = None" by (simp add: contribution_def)
      let ?s2 = "?s1\<lparr>continuations := continuations ?s1 @ [(e, c, x)]\<rparr>"
      have "set_at ?s2 sid = set_at st sid" by (simp add: set_at_def)
      with s have s2: "set_at ?s2 sid = pre @ Some c # rest" by simp
      have o2: "own e sid ?s2" using o own_cong [of ?s2 st e sid] by simp
      have "calls ?s2 = calls st @ [(c, args)]" by simp
      with b c False s2 o2 show ?thesis by (simp only: removed_on_return_def) simp
    qed
  qed
qed

subsection \<open>What a quiet turn leaves alone\<close>

lemma frame_refl: "frame st st"
  by (simp add: frame_def)

lemma frame_trans: "frame a b \<Longrightarrow> frame b c \<Longrightarrow> frame a c"
  by (simp add: frame_def)

lemma frame_funs: "funs st' = funs st \<Longrightarrow> frame st st'"
  by (simp add: frame_def fun_at_def is_suspended_def once_slot_def listened_slot_def data_of_def)

lemma frame_mark_listened:
  assumes "mark_listened c st = Inr st1"
  shows "frame st st1"
proof -
  from assms obtain d p where d: "data_of st c = Some d"
    and dp: "defineProperty (listened d) True = Inr p"
    and st1: "st1 = st\<lparr>funs := (funs st)[c := (funs st ! c)\<lparr>listenerData := Some (d\<lparr>listened := p\<rparr>)\<rparr>]\<rparr>"
    by (rule mark_listened_Inr)
  from d have c: "c < length (funs st)" and ld: "listenerData (funs st ! c) = Some d"
    by (auto simp: data_of_def fun_at_def split: if_splits option.splits)
  show ?thesis
    unfolding frame_def st1 using c ld dp
    by (cases "listened d")
       (auto simp: fun_at_def is_suspended_def once_slot_def listened_slot_def data_of_def
          nth_list_update split: if_splits)
qed

lemma frame_settle: "frame st (snd (settle e c r rv st))"
proof (cases "mark_listened c st")
  case (Inl err)
  then show ?thesis by (simp add: settle_def after_call_def frame_refl)
next
  case (Inr st1)
  have "frame st1 (off e (Some c) st1)" by (rule frame_funs) (simp add: off_fields)
  with frame_mark_listened [OF Inr] have "frame st (off e (Some c) st1)" by (rule frame_trans)
  with Inr frame_mark_listened [OF Inr] show ?thesis
    by (simp add: settle_def after_call_def)
qed

lemma frame_answer: "frame st st' \<Longrightarrow> answer st' f args = answer st f args"
  unfolding frame_def answer_def
  by (metis (no_types, lifting) option.case_eq_if option.map_sel option.map_disc_iff)

lemma frame_script: "frame st st' \<Longrightarrow> script st' f args = script st f args"
  unfolding frame_def script_def
  by (metis (no_types, lifting) option.case_eq_if option.map_sel option.map_disc_iff)

lemma frame_contribution: "frame st st' \<Longrightarrow> contribution st' args f = contribution st args f"
  by (simp add: contribution_def frame_answer)

lemma frame_is_suspended: "frame st st' \<Longrightarrow> is_suspended st' f = is_suspended st f"
  by (simp add: frame_def)

lemma is_once_slot: "is_once st f = slot_truthy (once_slot st f)"
  by (simp add: is_once_def once_slot_def split: option.split)

lemma frame_is_once: "frame st st' \<Longrightarrow> is_once st' f = is_once st f"
  by (simp add: is_once_slot frame_def)

lemma frame_removed_on_return:
  "frame st st' \<Longrightarrow> removed_on_return st' args f = removed_on_return st args f"
  by (simp add: removed_on_return_def frame_is_suspended frame_is_once frame_contribution)

lemma frame_fun_at_None: "frame st st' \<Longrightarrow> fun_at st' f = None \<longleftrightarrow> fun_at st f = None"
  by (simp add: frame_def fun_at_def)

lemma frame_runs_cleanly:
  assumes "frame st st'" and "runs_cleanly st args c"
  shows "runs_cleanly st' args c"
proof -
  have "(fun_at st' c = None) = (fun_at st c = None)" using assms(1) by (rule frame_fun_at_None)
  moreover have "(data_of st' c = None) = (data_of st c = None)"
    using assms(1) by (simp add: frame_def)
  moreover have "listened_slot st' c = Fixed False \<longrightarrow> listened_slot st c = Fixed False"
    using assms(1) by (simp add: frame_def)
  ultimately show ?thesis
    using assms(2)
    unfolding runs_cleanly_def frame_answer [OF assms(1)] frame_script [OF assms(1)]
      frame_is_suspended [OF assms(1)]
    by (auto split: outcome.splits)
qed

lemma emit_body_frame:
  assumes "script st c args = []"
  shows "frame st (snd (emit_body X e args c rv st))"
proof (cases "fun_at st c")
  case None
  then show ?thesis by (simp add: emit_body_def frame_refl)
next
  case (Some l)
  let ?s1 = "st\<lparr>calls := calls st @ [(c, args)],
                 promises := (case body l of Code g \<Rightarrow> promises st
                              | Resolver p \<Rightarrow> resolve p args (promises st))\<rparr>"
  have 1: "frame st ?s1" by (rule frame_funs) simp
  have i: "invoke X l c args st =
             (case answer st c args of Return r \<Rightarrow> Returned r | Raise x \<Rightarrow> Threw (Raised x), ?s1)"
    using Some assms
    by (cases "body l")
       (simp_all add: invoke_def Let_def script_fun_at answer_fun_at script_of_def run_body_def
          split: outcome.split)
  have 2: "frame ?s1 (snd (settle e c r rv ?s1))" for r by (rule frame_settle)
  have 3: "frame ?s1 (snd (call_then e c r rv ?s1))" for r
    using 2 [of r]
    by (auto simp: call_then_def frame_refl split: val.splits then_kind.splits intro!: frame_funs)
  show ?thesis
    using Some i 1 frame_trans [OF 1 2] frame_trans [OF 1 3]
    by (cases "answer st c args") (simp_all add: emit_body_def frame_refl)
qed

subsection \<open>The dispatch loop over listeners that leave the dispatcher alone\<close>

lemma runs_cleanly_quiet: "runs_cleanly st args c \<Longrightarrow> \<not> is_suspended st c \<Longrightarrow> script st c args = []"
  by (auto simp: runs_cleanly_def)

lemma emit_body_suspended:
  "is_suspended st c \<Longrightarrow> fun_at st c \<noteq> None \<Longrightarrow> emit_body X e args c rv st = (Returned rv, st)"
  by (auto simp: emit_body_def)

lemma emit_loop_quiet:
  assumes "set_at st sid = pre @ rest" and "own e sid st" and "distinct (members (pre @ rest))"
    and "\<forall>c\<in>set (members rest). runs_cleanly st args c" and "length rest < k"
  shows "\<exists>st' rest'.
           emit_loop X k e args sid (length pre) rv st =
             (Returned (fold set_add
                          (List.map_filter (contribution st args)
                             (filter (\<lambda>f. \<not> is_suspended st f) (members rest))) rv), st') \<and>
           calls st' = calls st @ map (\<lambda>f. (f, args)) (filter (\<lambda>f. \<not> is_suspended st f) (members rest)) \<and>
           set_at st' sid = pre @ rest' \<and>
           members rest' = filter (\<lambda>f. \<not> removed_on_return st args f) (members rest) \<and>
           own e sid st' \<and> frame st st'"
  using assms
proof (induction rest arbitrary: pre rv st k)
  case Nil
  then obtain k' where k: "k = Suc k'" by (cases k) auto
  from Nil show ?case by (simp add: k frame_refl map_filter_simps)
next
  case (Cons x rest)
  from Cons.prems(5) obtain k' where k: "k = Suc k'" and k': "length rest < k'" by (cases k) auto
  from Cons.prems(1) have i: "length pre < length (set_at st sid)"
    and x: "set_at st sid ! length pre = x" by simp_all
  show ?case
  proof (cases x)
    case None
    from i x None have step: "emit_loop X k e args sid (length pre) rv st =
                 emit_loop X k' e args sid (length (pre @ [None])) rv st"
      by (simp add: k)
    have 1: "set_at st sid = (pre @ [None]) @ rest" using Cons.prems(1) None by simp
    have 3: "distinct (members ((pre @ [None]) @ rest))" using Cons.prems(3) None by simp
    have 4: "\<forall>c\<in>set (members rest). runs_cleanly st args c" using Cons.prems(4) None by simp
    from Cons.IH [OF 1 Cons.prems(2) 3 4 k', of rv] obtain st' rest' where
      r: "emit_loop X k' e args sid (length (pre @ [None])) rv st =
             (Returned (fold set_add
                          (List.map_filter (contribution st args)
                             (filter (\<lambda>f. \<not> is_suspended st f) (members rest))) rv), st')"
        "calls st' = calls st @ map (\<lambda>f. (f, args)) (filter (\<lambda>f. \<not> is_suspended st f) (members rest))"
        "set_at st' sid = (pre @ [None]) @ rest'"
        "members rest' = filter (\<lambda>f. \<not> removed_on_return st args f) (members rest)"
        "own e sid st'" "frame st st'"
      by blast
    from r(3,4) have "set_at st' sid = pre @ (None # rest')"
      "members (None # rest') = filter (\<lambda>f. \<not> removed_on_return st args f) (members (x # rest))"
      by (simp_all add: None)
    with r(1,2,5,6) step None show ?thesis by (metis members_Cons_None)
  next
    case (Some c)
    let ?y = "if removed_on_return st args c then None else Some c"
    let ?rv1 = "if is_suspended st c then rv
                else case contribution st args c of None \<Rightarrow> rv | Some x \<Rightarrow> set_add x rv"
    have s: "set_at st sid = pre @ Some c # rest" using Cons.prems(1) Some by simp
    have d: "distinct (members (pre @ Some c # rest))" using Cons.prems(3) Some by simp
    have rc: "runs_cleanly st args c" using Cons.prems(4) Some by simp
    from emit_body_at [OF s Cons.prems(2) d rc, of X rv] obtain st1 where
      b: "emit_body X e args c rv st = (Returned ?rv1, st1)"
      and c1: "calls st1 = calls st @ (if is_suspended st c then [] else [(c, args)])"
      and s1: "set_at st1 sid = pre @ ?y # rest" and o1: "own e sid st1"
      by blast
    have f1: "frame st st1"
    proof (cases "is_suspended st c")
      case True
      with rc b show ?thesis by (simp add: emit_body_suspended runs_cleanly_def frame_refl)
    next
      case False
      with rc have "script st c args = []" by (simp add: runs_cleanly_quiet)
      from emit_body_frame [OF this, of X e rv] b show ?thesis by simp
    qed
    from i x Some b have step: "emit_loop X k e args sid (length pre) rv st =
                 emit_loop X k' e args sid (length (pre @ [?y])) ?rv1 st1"
      by (simp add: k)
    have 1: "set_at st1 sid = (pre @ [?y]) @ rest" using s1 by simp
    have 3: "distinct (members ((pre @ [?y]) @ rest))" using d by simp
    have 4: "\<forall>c\<in>set (members rest). runs_cleanly st1 args c"
      using Cons.prems(4) Some frame_runs_cleanly [OF f1] by simp
    have eqs: "contribution st1 args = contribution st args"
      "(\<lambda>f. \<not> is_suspended st1 f) = (\<lambda>f. \<not> is_suspended st f)"
      "(\<lambda>f. \<not> removed_on_return st1 args f) = (\<lambda>f. \<not> removed_on_return st args f)"
      by (simp_all add: fun_eq_iff frame_contribution [OF f1] frame_is_suspended [OF f1]
            frame_removed_on_return [OF f1])
    from Cons.IH [OF 1 o1 3 4 k', of ?rv1] obtain st' rest' where
      r: "emit_loop X k' e args sid (length (pre @ [?y])) ?rv1 st1 =
             (Returned (fold set_add
                          (List.map_filter (contribution st args)
                             (filter (\<lambda>f. \<not> is_suspended st f) (members rest))) ?rv1), st')"
        "calls st' = calls st1 @ map (\<lambda>f. (f, args)) (filter (\<lambda>f. \<not> is_suspended st f) (members rest))"
        "set_at st' sid = (pre @ [?y]) @ rest'"
        "members rest' = filter (\<lambda>f. \<not> removed_on_return st args f) (members rest)"
        "own e sid st'" "frame st1 st'"
      unfolding eqs by blast
    have A: "fold set_add
               (List.map_filter (contribution st args)
                  (filter (\<lambda>f. \<not> is_suspended st f) (members rest))) ?rv1 =
             fold set_add
               (List.map_filter (contribution st args)
                  (filter (\<lambda>f. \<not> is_suspended st f) (members (x # rest)))) rv"
      by (simp add: Some map_filter_simps split: option.split)
    have B: "calls st' = calls st @ map (\<lambda>f. (f, args)) (filter (\<lambda>f. \<not> is_suspended st f) (members (x # rest)))"
      by (simp add: r(2) c1 Some)
    have C: "set_at st' sid = pre @ (?y # rest')" using r(3) by simp
    have D: "members (?y # rest') = filter (\<lambda>f. \<not> removed_on_return st args f) (members (x # rest))"
      by (simp add: r(4) Some)
    have E: "frame st st'" using f1 r(6) by (rule frame_trans)
    from step r(1) A have "emit_loop X k e args sid (length pre) rv st =
             (Returned (fold set_add
                          (List.map_filter (contribution st args)
                             (filter (\<lambda>f. \<not> is_suspended st f) (members (x # rest)))) rv), st')"
      by simp
    with B C D E r(5) show ?thesis by blast
  qed
qed

text \<open>
  \<^verbatim>\<open>emit\<close> over listeners that leave the dispatcher alone: it returns when given
  more turns than the set has places, whatever the nesting allowed.
\<close>

lemma emit_with_quiet:
  assumes "distinct (collection st e)" and "\<forall>c\<in>set (collection st e). runs_cleanly st args c"
    and "length (entries_of st e) < k"
  shows "\<exists>st'. emit_with X k e args st =
             (Returned (fold set_add
                          (List.map_filter (contribution st args)
                             (filter (\<lambda>f. \<not> is_suspended st f) (collection st e))) []), st') \<and>
           calls st' = calls st @ map (\<lambda>f. (f, args)) (filter (\<lambda>f. \<not> is_suspended st f) (collection st e)) \<and>
           collection st' e = filter (\<lambda>f. \<not> removed_on_return st args f) (collection st e) \<and>
           frame st st'"
proof (cases "map_of (listeners st) e")
  case None
  then show ?thesis
    by (simp add: emit_with_def collection_def entries_of_def frame_refl map_filter_simps)
next
  case (Some sid)
  then have c: "collection st e = members (set_at st sid)" and en: "entries_of st e = set_at st sid"
    by (simp_all add: collection_def entries_of_def)
  have 1: "set_at st sid = [] @ set_at st sid" by simp
  have 2: "own e sid st" using Some by (simp add: own_def)
  have 3: "distinct (members ([] @ set_at st sid))" using assms(1) c by simp
  have 4: "\<forall>c\<in>set (members (set_at st sid)). runs_cleanly st args c" using assms(2) c by simp
  have 5: "length (set_at st sid) < k" using assms(3) en by simp
  obtain st' rest' where
      r: "emit_loop X k e args sid (length ([] :: fref option list)) [] st =
             (Returned (fold set_add
                          (List.map_filter (contribution st args)
                             (filter (\<lambda>f. \<not> is_suspended st f) (members (set_at st sid)))) []), st')"
        "calls st' = calls st @ map (\<lambda>f. (f, args)) (filter (\<lambda>f. \<not> is_suspended st f) (members (set_at st sid)))"
        "set_at st' sid = [] @ rest'"
        "members rest' = filter (\<lambda>f. \<not> removed_on_return st args f) (members (set_at st sid))"
        "own e sid st'" "frame st st'"
    using emit_loop_quiet [OF 1 2 3 4 5, of X "[]"] by blast
  from r(3,4,5) have "collection st' e = filter (\<lambda>f. \<not> removed_on_return st args f) (collection st e)"
    by (simp add: own_collection c)
  with r(1,2,6) Some c show ?thesis by (simp add: emit_with_def)
qed

subsection \<open>Result sets and invocation counts\<close>

lemma set_fold_set_add: "set (fold set_add xs acc) = set xs \<union> set acc"
  by (induction xs arbitrary: acc) (auto simp: set_add_def)

lemma set_map_filter_conv: "set (List.map_filter f xs) = {y. \<exists>x\<in>set xs. f x = Some y}"
  by (induction xs) (auto simp: map_filter_simps split: option.splits)

lemma contribution_Some_iff:
  "contribution st args f = Some r \<longleftrightarrow> answer st f args = Return r \<and> settles_inside r"
  by (auto simp: contribution_def split: outcome.splits)

lemma invocations_append: "invocations f (a @ b) = invocations f a + invocations f b"
  by (simp add: invocations_def)

lemma invocations_map:
  "distinct xs \<Longrightarrow> invocations f (map (\<lambda>g. (g, args)) xs) = (if f \<in> set xs then 1 else 0)"
  by (induction xs) (auto simp: invocations_def)

lemma sets_ok_collection: "sets_ok st \<Longrightarrow> distinct (collection st e)"
  by (auto simp: collection_def entries_of_def sets_ok_set_at split: option.split)

text \<open>The sets of a dispatcher are sets from its construction on.\<close>

lemma sets_ok_reachable: "sets_ok (execs n cs (construct emitterOptions lims))"
proof -
  have "sets_ok (construct emitterOptions lims)" by (simp add: sets_ok_def construct_def)
  with evolves_execs [of "construct emitterOptions lims" n cs] show ?thesis
    by (simp add: evolves_def)
qed

section \<open>The claims\<close>




text \<open>
  C3. On a dispatcher constructed without limits, \<^verbatim>\<open>on\<close> and \<^verbatim>\<open>once\<close> raise a
  \<^verbatim>\<open>TypeError\<close> (reading a property of \<^verbatim>\<open>undefined\<close>), after having inserted
  the listener.
\<close>

theorem on_without_limits_raises:
  "fst (on ''foo'' 0 bare) = Threw ReadOfUndefined \<and>
   fst (once ''foo'' 0 bare) = Threw ReadOfUndefined \<and>
   collection (snd (on ''foo'' 0 bare)) ''foo'' = [0]"
  by code_simp

text \<open>
  C4. A registration through \<^verbatim>\<open>on\<close> (\<open>v\<close> false) or \<^verbatim>\<open>once\<close> (\<open>v\<close> true)
  that inserts the listener emits the warning if and only if a limit is configured for
  the name, the limit is greater than the size of the collection after the insertion,
  the dispatcher has not warned yet and \<^verbatim>\<open>limitWarn\<close> is on. When it fires, the
  \<^verbatim>\<open>warned\<close> flag is set and no later call of the dispatcher, on any event name,
  by the caller or by a listener, emits another warning.
\<close>

theorem soft_limit_warning:
  assumes "can_register v st f" and "st' = snd (if v then once e f st else on e f st)"
  shows "(warnings st' \<noteq> warnings st \<longleftrightarrow>
            (\<exists>lim l. limits st = Some lim \<and> lim e = Some l \<and>
                     l > int (length (collection st' e)) \<and> \<not> warned st \<and> limitWarn st)) \<and>
         (warnings st' \<noteq> warnings st \<longrightarrow>
            (\<exists>l. warnings st' = warnings st @ [(l, e)]) \<and> warned st' \<and>
            (\<forall>n ops. warnings (execs n ops st') = warnings st')) \<and>
         (warnings st' = warnings st \<longrightarrow> warned st' = warned st)"
proof -
  from assms(1) obtain st1 where d: "define_once v f st = Inr st1"
    using define_once_accepts by blast
  define S where "S = (case map_of (listeners st) e of
        None \<Rightarrow> st1\<lparr>sets := sets st @ [[Some f]], listeners := listeners st @ [(e, length (sets st))]\<rparr>
      | Some sid \<Rightarrow> st1\<lparr>sets := (sets st)[sid := add_entry f (set_at st sid)], listeners := listeners st\<rparr>)"
  have st': "st' = snd (limit_check e S)"
    using assms(2) d by (cases v) (simp_all add: on_def once_def register_listener_eq S_def)
  have S: "warned S = warned st" "warnings S = warnings st" "limits S = limits st"
    "limitWarn S = limitWarn st"
    by (simp_all add: S_def define_once_fields [OF d] split: option.split)
  have "map_of (listeners S) e \<noteq> None" unfolding S_def by (rule insert_has_key)
  then have sz: "size_of S e = Some (int (length (collection S e)))" by (rule size_of_key)
  have col: "collection st' e = collection S e"
    by (rule collection_cong) (simp_all add: st' limit_check_fields)
  have stable: "warnings (execs n ops st') = warnings st'" if "warned st'" for n ops
    using evolves_execs [of st' n ops] that by (simp add: evolves_def)
  show ?thesis
  proof (cases rule: limit_check_cases [of S e])
    case Raised
    with S st' show ?thesis by simp
  next
    case (Silent lim)
    with S st' sz col show ?thesis by (auto simp: js_gt_Some)
  next
    case (Warned lim)
    then have w: "warnings st' = warnings st @ [(the (lim e), e)]" "warned st'"
      using S st' by simp_all
    from Warned sz obtain l where l: "lim e = Some l" "l > int (length (collection S e))"
      by (auto simp: js_gt_Some)
    from w stable have "\<forall>n ops. warnings (execs n ops st') = warnings st'" by blast
    with w l Warned S col show ?thesis by auto
  qed
qed

text \<open>
  With limits \<^verbatim>\<open>{ foo: 1 }\<close> neither the first registration (1 > 1 is false) nor
  the second (1 > 2 is false) warns; with \<^verbatim>\<open>{ foo: 5 }\<close> the first one does.
\<close>

theorem soft_limit_warning_witness:
  "warnings (snd (on ''foo'' 0 one_allowed)) = [] \<and>
   warnings (snd (on ''foo'' 1 (snd (on ''foo'' 0 one_allowed)))) = [] \<and>
   warnings (snd (once ''foo'' 0 kebab_shop)) = [(5, ''foo'')] \<and>
   warned (snd (once ''foo'' 0 kebab_shop))"
proof -
  let ?a = "snd (on ''foo'' 0 one_allowed)"
  let ?b = "snd (on ''foo'' 1 ?a)"
  let ?k = "snd (once ''foo'' 0 kebab_shop)"
  have la: "limits one_allowed = Some [''foo'' \<mapsto> 1]" "limits ?a = Some [''foo'' \<mapsto> 1]"
    and lk: "limits kebab_shop = Some [''foo'' \<mapsto> 5]"
    by (simp_all add: on_def register_fields one_allowed_def kebab_shop_def new_function_def construct_def)
  have c: "can_register False one_allowed 0" "can_register False ?a 1" "can_register True kebab_shop 0"
    by code_simp+
  have n: "collection ?a ''foo'' = [0]" "collection ?b ''foo'' = [0, 1]" "collection ?k ''foo'' = [0]"
    "warnings one_allowed = []" "warnings kebab_shop = []" "\<not> warned kebab_shop" "limitWarn kebab_shop"
    by code_simp+
  from soft_limit_warning [OF c(1), of ?a "''foo''"] la n
  have 1: "warnings ?a = []" by simp
  from soft_limit_warning [OF c(2), of ?b "''foo''"] la n 1
  have 2: "warnings ?b = []" by simp
  from soft_limit_warning [OF c(3), of ?k "''foo''"] lk n
  have 3: "(\<exists>l. warnings ?k = [(l, ''foo'')]) \<and> warned ?k" by simp
  have 4: "warnings ?k = [(5, ''foo'')]" by code_simp
  from 1 2 3 4 show ?thesis by simp
qed

text \<open>
  C5. Three functions with the same source text, the first two registered under
  \<^verbatim>\<open>"x"\<close>. \<^verbatim>\<open>off("x", f0)\<close> calls \<^verbatim>\<open>listeners.delete(listener)\<close> and removes
  only \<^verbatim>\<open>f0\<close>: the member \<^verbatim>\<open>f1\<close>, whose string representation equals that of
  the argument, stays. \<^verbatim>\<open>off("x", f2)\<close> with the unregistered twin removes nothing,
  although \<^verbatim>\<open>hasListener("x", f2)\<close> answers true.
\<close>

theorem off_keeps_textual_twin:
  "String_of twins_registered (Some 1) = String_of twins_registered (Some 0) \<and>
   collection twins_registered ''x'' = [0, 1] \<and>
   collection (off ''x'' (Some 0) twins_registered) ''x'' = [1] \<and>
   String_of twins_registered (Some 2) = String_of twins_registered (Some 0) \<and>
   collection (off ''x'' (Some 2) twins_registered) ''x'' = [0, 1] \<and>
   hasListener ''x'' (Some 2) twins_registered"
  by code_simp

text \<open>
  C6. After \<^verbatim>\<open>once("foo", f)\<close> has returned, with the \<^verbatim>\<open>once\<close> property of
  \<^verbatim>\<open>f\<close> fixed at true, \<^verbatim>\<open>on("bar", f)\<close> does not complete normally: it
  raises a \<^verbatim>\<open>TypeError\<close>, the property being neither writable nor configurable.
\<close>

theorem on_after_once_raises:
  "fst (once ''foo'' 0 kebab_shop) = Returned () \<and>
   once_slot (snd (once ''foo'' 0 kebab_shop)) 0 = Fixed True \<and>
   fst (on ''bar'' 0 (snd (once ''foo'' 0 kebab_shop))) = Threw CannotRedefineProperty"
  by code_simp




text \<open>
  C8. On a dispatcher constructed without limits the future returned by
  \<^verbatim>\<open>onceAsync("x")\<close> is rejected at once, by the \<^verbatim>\<open>TypeError\<close> of
  \<^verbatim>\<open>once\<close>; \<^verbatim>\<open>emit("x", 42)\<close> then invokes the registered closure and the
  future stays rejected instead of resolving with \<^verbatim>\<open>[42]\<close>.
\<close>

theorem onceAsync_without_limits_rejects:
  "fst (onceAsync ''x'' (construct None None)) = 0 \<and>
   promises (snd (onceAsync ''x'' (construct None None))) = [Rejected ReadOfUndefined] \<and>
   fst (emit 2 ''x'' [VNum 42] (snd (onceAsync ''x'' (construct None None)))) = Returned [VUndefined] \<and>
   calls (snd (emit 2 ''x'' [VNum 42] (snd (onceAsync ''x'' (construct None None))))) = [(0, [VNum 42])] \<and>
   promises (snd (emit 2 ''x'' [VNum 42] (snd (onceAsync ''x'' (construct None None))))) = [Rejected ReadOfUndefined]"
  by code_simp

text \<open>
  C9. No entry of the registry holds an empty collection, and no two entries hold the
  same \<^verbatim>\<open>Set\<close> object: this holds after construction and is kept by every call
  (\<^verbatim>\<open>on\<close>, \<^verbatim>\<open>once\<close>, \<^verbatim>\<open>onceAsync\<close>, \<^verbatim>\<open>off\<close>, \<^verbatim>\<open>emit\<close> with
  whatever the listeners it invokes do to the dispatcher, the continuation of a
  promise-like result and the three introspection operations), whether the call
  returns, raises or is cut off, and by every sequence of calls. Hence a name is a key
  of the registry exactly when its collection is not empty.
\<close>

theorem registry_keys_have_listeners:
  "registry_ok (construct emitterOptions lims) \<and> unshared (construct emitterOptions lims) \<and>
   (registry_ok st \<and> unshared st \<longrightarrow>
      registry_ok (snd (exec n c st)) \<and> unshared (snd (exec n c st)) \<and>
      registry_ok (execs n cs st)) \<and>
   (registry_ok st \<longrightarrow> (\<forall>e. map_has e (listeners st) \<longleftrightarrow> collection st e \<noteq> []))"
proof (intro conjI impI allI)
  show "registry_ok (construct emitterOptions lims)"
    by (simp add: registry_ok_def construct_def)
  show "unshared (construct emitterOptions lims)"
    by (simp add: unshared_def construct_def)
next
  assume a: "registry_ok st \<and> unshared st"
  then show "registry_ok (snd (exec n c st))" "unshared (snd (exec n c st))"
    using evolves_exec [of st n c] by (simp_all add: evolves_def)
  from a show "registry_ok (execs n cs st)" using registry_ok_execs by blast
next
  fix e assume ok: "registry_ok st"
  show "map_has e (listeners st) \<longleftrightarrow> collection st e \<noteq> []"
  proof (cases "map_of (listeners st) e")
    case None
    then show ?thesis by (simp add: map_has_def collection_def entries_of_def)
  next
    case (Some sid)
    then have "(e, sid) \<in> set (listeners st)" by (rule map_of_SomeD)
    with ok have "members (set_at st sid) \<noteq> []" by (auto simp: registry_ok_def list_all_iff)
    with Some show ?thesis by (simp add: map_has_def collection_def entries_of_def)
  qed
qed

text \<open>
  A once-listener alone under \<^verbatim>\<open>"x"\<close>: dispatching removes it and the key with it.
\<close>

theorem registry_keys_have_listeners_witness:
  "registry_ok (snd (once ''x'' 0 twins)) \<and>
   listeners (snd (once ''x'' 0 twins)) = [(''x'', 0)] \<and>
   collection (snd (once ''x'' 0 twins)) ''x'' = [0] \<and>
   registry_ok (snd (exec 2 (Emit ''x'' []) (snd (once ''x'' 0 twins)))) \<and>
   listeners (snd (exec 2 (Emit ''x'' []) (snd (once ''x'' 0 twins)))) = [] \<and>
   map_has ''x'' (listeners (snd (once ''x'' 0 twins))) \<and>
   \<not> map_has ''x'' (listeners (snd (exec 2 (Emit ''x'' []) (snd (once ''x'' 0 twins)))))"
proof -
  let ?s = "snd (once ''x'' 0 twins)"
  have 0: "registry_ok ?s" "unshared ?s" by code_simp+
  from registry_keys_have_listeners [of None None ?s 2 "Emit ''x'' []" "[]"] 0
  have 1: "registry_ok (snd (exec 2 (Emit ''x'' []) ?s))" by blast
  have 2: "listeners ?s = [(''x'', 0)]" "listeners (snd (exec 2 (Emit ''x'' []) ?s)) = []"
    "collection ?s ''x'' = [0]"
    "map_has ''x'' (listeners ?s)" "\<not> map_has ''x'' (listeners (snd (exec 2 (Emit ''x'' []) ?s)))"
    by code_simp+
  from 0 1 2 show ?thesis by blast
qed

text \<open>
  C10. \<^verbatim>\<open>listenerCount\<close> tests its argument for truthiness. With the empty
  string as event name it returns the sum of all collection sizes, as without an
  argument, and not the size of the collection registered under the empty string; with
  any other name it returns the size of the collection of that name. With one listener
  under \<^verbatim>\<open>""\<close> and two under \<^verbatim>\<open>"foo"\<close> the counts are 3 for \<^verbatim>\<open>""\<close> and
  for no argument, 2 for \<^verbatim>\<open>"foo"\<close> and 0 for \<^verbatim>\<open>"bar"\<close>.
\<close>

theorem listenerCount_empty_string_is_total:
  "listenerCount (Some []) st =
     sum_list (map (\<lambda>entry. length (members (set_at st (snd entry)))) (listeners st)) \<and>
   listenerCount (Some []) st = listenerCount None st \<and>
   listenerCount (Some (c # s)) st = length (collection st (c # s)) \<and>
   collection counted [] = [0] \<and> collection counted ''foo'' = [1, 2] \<and>
   listenerCount (Some []) counted = 3 \<and> listenerCount None counted = 3 \<and>
   listenerCount (Some ''foo'') counted = 2 \<and> listenerCount (Some ''bar'') counted = 0"
proof -
  have 1: "listenerCount (Some []) st =
     sum_list (map (\<lambda>entry. length (members (set_at st (snd entry)))) (listeners st))"
    "listenerCount (Some []) st = listenerCount None st"
    by (simp_all add: listenerCount_def fold_count)
  have 2: "listenerCount (Some (c # s)) st = length (collection st (c # s))"
    by (simp add: listenerCount_def map_has_def collection_def entries_of_def size_entries_def
          split: option.split)
  have 3: "collection counted [] = [0]" "collection counted ''foo'' = [1, 2]"
    "listenerCount (Some []) counted = 3" "listenerCount None counted = 3"
    "listenerCount (Some ''foo'') counted = 2" "listenerCount (Some ''bar'') counted = 0"
    by code_simp+
  from 1 2 3 show ?thesis by simp
qed

end
